theory Spec2Isabelle
  imports Main
begin

section \<open>JavaScript primitives used by the session manager and the keyed store\<close>

text \<open>
  The values that reach the modelled code are JavaScript primitives: \<open>undefined\<close>,
  \<open>null\<close>, numbers and strings. Numbers are modelled as integers (status codes,
  delays and owner ids are integers in this program); strings are ASCII byte strings.
\<close>

datatype jsprim = Undefined | Null | Num int | Str string

text \<open>Truthiness, as used by \<open>||\<close>, \<open>!\<close> and \<open>if\<close>.\<close>

fun js_truthy :: "jsprim \<Rightarrow> bool" where
  "js_truthy Undefined = False"
| "js_truthy Null = False"
| "js_truthy (Num n) = (n \<noteq> 0)"
| "js_truthy (Str s) = (s \<noteq> [])"

text \<open>\<open>a || b\<close>\<close>

definition js_or :: "jsprim \<Rightarrow> jsprim \<Rightarrow> jsprim" where
  "js_or a b = (if js_truthy a then a else b)"

text \<open>Decimal digits of a natural number, most significant first.\<close>

definition digit_char :: "nat \<Rightarrow> char" where
  "digit_char d = char_of (48 + d)"

fun digits :: "nat \<Rightarrow> string" where
  "digits n = (if n < 10 then [digit_char n] else digits (n div 10) @ [digit_char (n mod 10)])"

declare digits.simps [simp del]

text \<open>\<open>String(n)\<close> for an integer number.\<close>

definition String_num :: "int \<Rightarrow> string" where
  "String_num i = (if i < 0 then CHR ''-'' # digits (nat (- i)) else digits (nat i))"

text \<open>\<open>String(x)\<close>\<close>

fun js_String :: "jsprim \<Rightarrow> string" where
  "js_String Undefined = ''undefined''"
| "js_String Null = ''null''"
| "js_String (Num n) = String_num n"
| "js_String (Str s) = s"

text \<open>\<open>toLowerCase\<close> on ASCII text: the letters A to Z move to a to z.\<close>

definition lower_char :: "char \<Rightarrow> char" where
  "lower_char c = (let n = (of_char c :: nat) in if 65 \<le> n \<and> n \<le> 90 then char_of (n + 32) else c)"

definition toLowerCase :: "string \<Rightarrow> string" where
  "toLowerCase s = map lower_char s"

text \<open>\<open>s.includes(t)\<close>: \<open>t\<close> occurs in \<open>s\<close> as a contiguous substring.\<close>

fun startsWith :: "string \<Rightarrow> string \<Rightarrow> bool" where
  "startsWith s [] = True"
| "startsWith [] (y # ys) = False"
| "startsWith (x # xs) (y # ys) = (x = y \<and> startsWith xs ys)"

fun includes_str :: "string \<Rightarrow> string \<Rightarrow> bool" where
  "includes_str [] t = (t = [])"
| "includes_str (c # cs) t = (startsWith (c # cs) t \<or> includes_str cs t)"

section \<open>Session manager: classification of a close reason\<close>

text \<open>
  The test computed in \<open>_handleConnectionUpdate\<close> on a \<open>close\<close> update, from
  \<open>statusCode = lastDisconnect?.error?.output?.statusCode\<close> and
  \<open>payloadReason = lastDisconnect?.error?.output?.payload?.reason\<close>
  (either is \<open>undefined\<close> when absent).
\<close>

definition close_reason :: "jsprim \<Rightarrow> jsprim \<Rightarrow> jsprim" where
  "close_reason statusCode payloadReason = js_or (js_or statusCode payloadReason) Null"

definition isLoggedOut :: "jsprim \<Rightarrow> jsprim \<Rightarrow> bool" where
  "isLoggedOut statusCode payloadReason =
     (statusCode = Num 401
      \<or> payloadReason = Str ''loggedOut''
      \<or> payloadReason = Str ''logout''
      \<or> includes_str (toLowerCase (js_String (close_reason statusCode payloadReason))) ''loggedout''
      \<or> includes_str (toLowerCase (js_String payloadReason)) ''loggedout''
      \<or> includes_str (toLowerCase (js_String payloadReason)) ''forbidden'')"

datatype classification = Permanent | Transient

definition classify :: "jsprim \<Rightarrow> jsprim \<Rightarrow> classification" where
  "classify statusCode payloadReason =
     (if isLoggedOut statusCode payloadReason then Permanent else Transient)"

text \<open>
  The classification as the specification words it: permanent exactly for status code 401
  or a payload reason that contains, ignoring case, one of the three words.
\<close>

definition spec_classify :: "jsprim \<Rightarrow> jsprim \<Rightarrow> classification" where
  "spec_classify statusCode payloadReason =
     (if statusCode = Num 401
         \<or> includes_str (toLowerCase (js_String payloadReason)) ''loggedout''
         \<or> includes_str (toLowerCase (js_String payloadReason)) ''logout''
         \<or> includes_str (toLowerCase (js_String payloadReason)) ''forbidden''
      then Permanent else Transient)"

text \<open>A close reason as the connection library produces it: a numeric status code or
  none, and a string payload reason or none.\<close>

fun num_opt :: "int option \<Rightarrow> jsprim" where
  "num_opt None = Undefined"
| "num_opt (Some n) = Num n"

fun str_opt :: "string option \<Rightarrow> jsprim" where
  "str_opt None = Undefined"
| "str_opt (Some s) = Str s"

section \<open>Keyed store (DBManager)\<close>

text \<open>JSON-serializable values, the values the store holds.\<close>

datatype json = JNull | JBool bool | JNum int | JStr string
  | JArr "json list" | JObj "(string \<times> json) list"

text \<open>Truthiness of a stored value (\<open>!val\<close> is its negation).\<close>

fun json_truthy :: "json \<Rightarrow> bool" where
  "json_truthy JNull = False"
| "json_truthy (JBool b) = b"
| "json_truthy (JNum n) = (n \<noteq> 0)"
| "json_truthy (JStr s) = (s \<noteq> [])"
| "json_truthy (JArr xs) = True"
| "json_truthy (JObj kvs) = True"

text \<open>\<open>deepClone(x) = JSON.parse(JSON.stringify(x))\<close>: a fresh copy of the same tree.\<close>

fun deepClone :: "json \<Rightarrow> json" where
  "deepClone JNull = JNull"
| "deepClone (JBool b) = JBool b"
| "deepClone (JNum n) = JNum n"
| "deepClone (JStr s) = JStr s"
| "deepClone (JArr xs) = JArr (map deepClone xs)"
| "deepClone (JObj kvs) = JObj (map (map_prod id deepClone) kvs)"

text \<open>
  A JavaScript \<open>Map\<close>: insertion-ordered, \<open>set\<close> on a present key replaces the value
  where it stands, \<open>set\<close> on a new key appends, \<open>delete\<close> removes the key.
\<close>

type_synonym ('k, 'v) jsmap = "('k \<times> 'v) list"

definition jsmap_get :: "('k, 'v) jsmap \<Rightarrow> 'k \<Rightarrow> 'v option" where
  "jsmap_get m k = map_of m k"

definition jsmap_has :: "('k, 'v) jsmap \<Rightarrow> 'k \<Rightarrow> bool" where
  "jsmap_has m k = (map_of m k \<noteq> None)"

fun jsmap_set :: "'k \<Rightarrow> 'v \<Rightarrow> ('k, 'v) jsmap \<Rightarrow> ('k, 'v) jsmap" where
  "jsmap_set k v [] = [(k, v)]"
| "jsmap_set k v (p # m) = (if fst p = k then (k, v) # m else p # jsmap_set k v m)"

definition jsmap_delete :: "'k \<Rightarrow> ('k, 'v) jsmap \<Rightarrow> ('k, 'v) jsmap" where
  "jsmap_delete k m = filter (\<lambda>p. fst p \<noteq> k) m"

text \<open>A mutation of the value object stored under a key; no effect when the key is absent.\<close>

definition jsmap_mutate :: "'k \<Rightarrow> ('v \<Rightarrow> 'v) \<Rightarrow> ('k, 'v) jsmap \<Rightarrow> ('k, 'v) jsmap" where
  "jsmap_mutate k f m = map (\<lambda>p. if fst p = k then (fst p, f (snd p)) else p) m"

text \<open>\<open>const k = m.keys().next().value; m.delete(k)\<close>; on an empty map \<open>k\<close> is
  \<open>undefined\<close> and nothing is deleted.\<close>

definition delete_first :: "('k, 'v) jsmap \<Rightarrow> ('k, 'v) jsmap" where
  "delete_first m = (case m of [] \<Rightarrow> [] | p # _ \<Rightarrow> jsmap_delete (fst p) m)"

text \<open>\<open>while (m.size > cap) { delete the first key }\<close>. The loop does not end when the
  cap is negative: its result is then \<open>None\<close>.\<close>

partial_function (option) evict_while :: "int \<Rightarrow> ('k, 'v) jsmap \<Rightarrow> ('k, 'v) jsmap option" where
  "evict_while cap m = (if int (length m) > cap then evict_while cap (delete_first m) else Some m)"

text \<open>A cap option (\<open>options.maxUsers ?? null\<close>) is in force when it is neither
  \<open>null\<close> nor \<open>0\<close>.\<close>

fun cap_set :: "int option \<Rightarrow> bool" where
  "cap_set None = False"
| "cap_set (Some c) = (c \<noteq> 0)"

type_synonym usermap = "(string, json) jsmap"

record db =
  maxUsers :: "int option"
  maxKeysPerUser :: "int option"
  returnDirectRef :: bool
  store :: "(jsprim, usermap) jsmap"

text \<open>Moving an owner to the most recent position: \<open>store.delete(userId); store.set(userId, m)\<close>.\<close>

definition touch :: "jsprim \<Rightarrow> usermap \<Rightarrow> db \<Rightarrow> db" where
  "touch userId m d = d\<lparr>store := jsmap_set userId m (jsmap_delete userId (store d))\<rparr>"

definition applyLRUIfNeeded :: "db \<Rightarrow> db option" where
  "applyLRUIfNeeded d =
     (if \<not> cap_set (maxUsers d) then Some d
      else map_option (\<lambda>s. d\<lparr>store := s\<rparr>) (evict_while (the (maxUsers d)) (store d)))"

text \<open>\<open>_ensureUserMap\<close> returns the owner's map object and the updated store.\<close>

definition ensureUserMap :: "jsprim \<Rightarrow> db \<Rightarrow> (usermap \<times> db) option" where
  "ensureUserMap userId d =
     (case jsmap_get (store d) userId of
        None \<Rightarrow> map_option (Pair [])
                  (applyLRUIfNeeded (d\<lparr>store := jsmap_set userId [] (store d)\<rparr>))
      | Some m \<Rightarrow> Some (m, if cap_set (maxUsers d) then touch userId m d else d))"

definition applyMaxKeysToUser :: "db \<Rightarrow> usermap \<Rightarrow> usermap option" where
  "applyMaxKeysToUser d userMap =
     (if \<not> cap_set (maxKeysPerUser d) then Some userMap
      else evict_while (the (maxKeysPerUser d)) userMap)"

text \<open>\<open>if (typeof userId === "number") userId = String(userId)\<close>\<close>

fun coerce_owner :: "jsprim \<Rightarrow> jsprim" where
  "coerce_owner (Num n) = Str (String_num n)"
| "coerce_owner u = u"

text \<open>\<open>set(userId, key, value)\<close>; \<open>None\<close> when an eviction loop does not end.
  Scheduling the disk write and emitting the \<open>set\<close> event are outside the model.\<close>

definition db_set :: "jsprim \<Rightarrow> string \<Rightarrow> json \<Rightarrow> db \<Rightarrow> db option" where
  "db_set userId key val d =
     (let uid = coerce_owner userId in
      case ensureUserMap uid d of
        None \<Rightarrow> None
      | Some (m, d1) \<Rightarrow>
          (case applyMaxKeysToUser d1 (jsmap_set key val m) of
             None \<Rightarrow> None
           | Some m' \<Rightarrow> Some (d1\<lparr>store := jsmap_mutate uid (\<lambda>_. m') (store d1)\<rparr>)))"

text \<open>\<open>get(userId, key)\<close>: the returned value (\<open>JNull\<close> for \<open>null\<close>) and the store.\<close>

definition db_get :: "jsprim \<Rightarrow> string \<Rightarrow> db \<Rightarrow> json \<times> db" where
  "db_get userId key d =
     (case jsmap_get (store d) userId of
        None \<Rightarrow> (JNull, d)
      | Some m \<Rightarrow>
          (let val = (case jsmap_get m key of None \<Rightarrow> JNull | Some v \<Rightarrow> v);
               d' = (if cap_set (maxUsers d) \<and> jsmap_has (store d) userId
                     then touch userId (the (jsmap_get (store d) userId)) d else d)
           in (if \<not> json_truthy val then JNull
               else if returnDirectRef d then val else deepClone val, d')))"

text \<open>\<open>getAll(userId)\<close>: the owner's keys as a plain object, or \<open>null\<close> (\<open>None\<close>).\<close>

definition db_getAll :: "jsprim \<Rightarrow> db \<Rightarrow> json option \<times> db" where
  "db_getAll userId d =
     (case jsmap_get (store d) userId of
        None \<Rightarrow> (None, d)
      | Some m \<Rightarrow> (Some (JObj m), if cap_set (maxUsers d) then touch userId m d else d))"

definition db_delKey :: "jsprim \<Rightarrow> string \<Rightarrow> db \<Rightarrow> bool \<times> db" where
  "db_delKey userId key d =
     (case jsmap_get (store d) userId of
        None \<Rightarrow> (False, d)
      | Some m \<Rightarrow>
          (let existed = jsmap_has m key; m' = jsmap_delete key m
           in (existed,
               if m' = [] then d\<lparr>store := jsmap_delete userId (store d)\<rparr>
               else d\<lparr>store := jsmap_mutate userId (\<lambda>_. m') (store d)\<rparr>)))"

definition db_delUser :: "jsprim \<Rightarrow> db \<Rightarrow> bool \<times> db" where
  "db_delUser userId d = (jsmap_has (store d) userId, d\<lparr>store := jsmap_delete userId (store d)\<rparr>)"

text \<open>A store as the constructor leaves it when the snapshot file is empty.\<close>

definition new_db :: "int option \<Rightarrow> int option \<Rightarrow> bool \<Rightarrow> db" where
  "new_db mu mk direct = \<lparr>maxUsers = mu, maxKeysPerUser = mk, returnDirectRef = direct, store = []\<rparr>"

text \<open>A cap is well formed when it is absent or not negative; a map is within a cap
  when the cap is not in force or the map has at most that many keys.\<close>

fun cap_ok :: "int option \<Rightarrow> bool" where
  "cap_ok None = True"
| "cap_ok (Some c) = (0 \<le> c)"

definition within_cap :: "int option \<Rightarrow> 'a list \<Rightarrow> bool" where
  "within_cap cap m = (\<not> cap_set cap \<or> int (length m) \<le> the cap)"

text \<open>\<open>set(writer, key, val)\<close> followed at once by \<open>get(reader, key)\<close>: what the read
  returns, or \<open>None\<close> when the write does not return.\<close>

definition get_after_set :: "jsprim \<Rightarrow> jsprim \<Rightarrow> string \<Rightarrow> json \<Rightarrow> db \<Rightarrow> json option" where
  "get_after_set reader writer key val d =
     (case db_set writer key val d of None \<Rightarrow> None | Some d' \<Rightarrow> Some (fst (db_get reader key d')))"

text \<open>The store's data invariant: owner ids and keys are unique (as in any \<open>Map\<close>), the
  caps are well formed, and every owner's map is within the key cap.\<close>

definition usermap_ok :: "db \<Rightarrow> usermap \<Rightarrow> bool" where
  "usermap_ok d m = (distinct (map fst m) \<and> within_cap (maxKeysPerUser d) m)"

definition db_ok :: "db \<Rightarrow> bool" where
  "db_ok d = (cap_ok (maxUsers d) \<and> cap_ok (maxKeysPerUser d)
     \<and> distinct (map fst (store d)) \<and> list_all (usermap_ok d) (map snd (store d)))"

text \<open>Owner ids in the store are never numbers: the snapshot file has string keys and
  \<open>set\<close> coerces.\<close>

fun is_Num :: "jsprim \<Rightarrow> bool" where
  "is_Num (Num n) = True"
| "is_Num u = False"

definition no_numeric_owner :: "db \<Rightarrow> bool" where
  "no_numeric_owner d = list_all (\<lambda>u. \<not> is_Num u) (map fst (store d))"

text \<open>A store with owner cap 2 that holds the owners \<open>a\<close> and \<open>b\<close>, in this order.\<close>

definition two_owners :: db where
  "two_owners = \<lparr>maxUsers = Some 2, maxKeysPerUser = None, returnDirectRef = True,
     store = [(Str ''a'', [(''k'', JNum 1)]), (Str ''b'', [(''k'', JNum 2)])]\<rparr>"

text \<open>
  \<open>_initFromFile\<close>, run by the constructor: the parsed snapshot (an object from owner id
  to an object from key to value, given by its entries in order) is copied into the store.
  No cap is applied here.
\<close>

definition map_of_entries :: "('k \<times> 'v) list \<Rightarrow> ('k, 'v) jsmap" where
  "map_of_entries kvs = foldl (\<lambda>m p. jsmap_set (fst p) (snd p) m) [] kvs"

definition initFromFile :: "(string \<times> (string \<times> json) list) list \<Rightarrow> db \<Rightarrow> db" where
  "initFromFile obj d =
     d\<lparr>store := foldl (\<lambda>s p. jsmap_set (Str (fst p)) (map_of_entries (snd p)) s) (store d) obj\<rparr>"

definition construct_db ::
  "int option \<Rightarrow> int option \<Rightarrow> bool \<Rightarrow> (string \<times> (string \<times> json) list) list \<Rightarrow> db" where
  "construct_db mu mk direct obj = initFromFile obj (new_db mu mk direct)"

text \<open>A snapshot file with three owners.\<close>

definition three_owner_snapshot :: "(string \<times> (string \<times> json) list) list" where
  "three_owner_snapshot =
     [(''a'', [(''k'', JNum 1)]), (''b'', [(''k'', JNum 2)]), (''c'', [(''k'', JNum 3)])]"

section \<open>Semaphore\<close>

text \<open>
  The counting semaphore of \<open>sessionManager.js\<close>. A suspended \<open>acquire\<close> is the
  \<open>resolve\<close> callback it pushed on the queue; callers are named by numbers. The
  \<open>active\<close> count is a natural number: subtraction stops at 0, as
  \<open>Math.max(0, this.active - 1)\<close> does.
\<close>

record semaphore =
  limit :: nat
  active :: nat
  queue :: "nat list"

definition new_semaphore :: "nat \<Rightarrow> semaphore" where
  "new_semaphore n = \<lparr>limit = n, active = 0, queue = []\<rparr>"

text \<open>\<open>acquire()\<close> up to its \<open>await\<close>: either the slot is taken and the call returns
  (\<open>True\<close>), or the caller is queued and suspended (\<open>False\<close>).\<close>

definition acquire_call :: "nat \<Rightarrow> semaphore \<Rightarrow> bool \<times> semaphore" where
  "acquire_call w s =
     (if active s < limit s then (True, s\<lparr>active := active s + 1\<rparr>)
      else (False, s\<lparr>queue := queue s @ [w]\<rparr>))"

text \<open>The rest of \<open>acquire()\<close>, run when the suspended caller resumes: \<open>this.active++\<close>.\<close>

definition acquire_resume :: "semaphore \<Rightarrow> semaphore" where
  "acquire_resume s = s\<lparr>active := active s + 1\<rparr>"

text \<open>\<open>release()\<close>: the count goes down and the oldest queued callback, if any, is
  called; its caller resumes later.\<close>

definition release :: "semaphore \<Rightarrow> nat option \<times> semaphore" where
  "release s =
     (let s' = s\<lparr>active := active s - 1\<rparr>
      in case queue s' of [] \<Rightarrow> (None, s') | w # ws \<Rightarrow> (Some w, s'\<lparr>queue := ws\<rparr>))"

text \<open>
  Callers around one semaphore. \<open>holders\<close> are the callers whose \<open>acquire\<close> has
  returned and who have not released; \<open>woken\<close> are the callers whose callback was called
  and who have not resumed yet.
\<close>

record sem_sys =
  sem_of :: semaphore
  woken :: "nat list"
  holders :: "nat list"

datatype sem_event = Acquire nat | Release nat | ResumeWaiter nat

fun sem_step :: "sem_event \<Rightarrow> sem_sys \<Rightarrow> sem_sys" where
  "sem_step (Acquire w) st =
     (let (returned, s') = acquire_call w (sem_of st)
      in st\<lparr>sem_of := s', holders := (if returned then holders st @ [w] else holders st)\<rparr>)"
| "sem_step (Release w) st =
     (let (wk, s') = release (sem_of st)
      in st\<lparr>sem_of := s', holders := remove1 w (holders st),
            woken := woken st @ (case wk of None \<Rightarrow> [] | Some x \<Rightarrow> [x])\<rparr>)"
| "sem_step (ResumeWaiter w) st =
     (if w \<in> set (woken st)
      then st\<lparr>sem_of := acquire_resume (sem_of st), woken := remove1 w (woken st),
              holders := holders st @ [w]\<rparr>
      else st)"

definition sem_run :: "sem_event list \<Rightarrow> sem_sys \<Rightarrow> sem_sys" where
  "sem_run evs st = foldl (\<lambda>s e. sem_step e s) st evs"

definition new_sem_sys :: "nat \<Rightarrow> sem_sys" where
  "new_sem_sys n = \<lparr>sem_of = new_semaphore n, woken = [], holders = []\<rparr>"

section \<open>Session manager\<close>

datatype status = Stopped | Starting | Connected | Reconnecting | Stopping

text \<open>A session entry object; \<open>sock\<close> names the connection the entry refers to.\<close>

record entry =
  sock :: "nat option"
  backoffMs :: int
  restarting :: bool
  status :: status

datatype start_error = FailedToRegister | FactoryError

text \<open>
  A call of \<open>start\<close> in flight, and where it stands: queued on the semaphore, called back
  by \<open>release\<close> but not resumed, holding its slot before the factory call, waiting for the
  factory, waiting out the settle delay in \<open>finally\<close> (with the pending outcome), or
  finished with its outcome (the connection returned or the error thrown).
\<close>

datatype pc = SemWait | SemWoken | SemGranted | AwaitFactory
  | AwaitDelay "start_error + nat" | Done "start_error + nat"

text \<open>Who awaits the call: an outside caller, the reconnect timer closure (which holds
  the entry object it was created for), or a task of \<open>startAll\<close>.\<close>

datatype caller = External | FromTimer nat | FromStartAll

record task =
  t_sid :: string
  t_entry :: nat
  t_pc :: pc
  t_caller :: caller

text \<open>A reconnect timer set by \<open>setTimeout\<close>: its closure holds the session id and the
  entry object.\<close>

record timer =
  tm_sid :: string
  tm_entry :: nat
  tm_delay :: int
  tm_fired :: bool

text \<open>
  The manager. Entry objects live in \<open>heap\<close>, by address, since closures keep an entry
  after the registry has dropped it; \<open>sessions\<close> is the registry \<open>Map\<close> from session id
  to entry address. \<open>conns\<close> lists every connection the factory has returned, by number,
  with the session id it was made for and whether it is still live. Event emission,
  logging and the best-effort writes of the id list are outside the model.
\<close>

record manager =
  concurrency :: nat
  defaultBackoff :: int
  maxBackoff :: int
  sem :: semaphore
  sessions :: "(string, nat) jsmap"
  heap :: "nat \<Rightarrow> entry"
  next_ref :: nat
  tasks :: "task list"
  timers :: "timer list"
  conns :: "(string \<times> bool) list"

text \<open>\<open>opts.x || d\<close> for a numeric option.\<close>

fun or_default :: "'a::zero option \<Rightarrow> 'a \<Rightarrow> 'a" where
  "or_default None d = d"
| "or_default (Some x) d = (if x = 0 then d else x)"

definition blank_entry :: entry where
  "blank_entry = \<lparr>sock = None, backoffMs = 0, restarting = False, status = Stopped\<rparr>"

definition new_manager :: "nat option \<Rightarrow> int option \<Rightarrow> int option \<Rightarrow> manager" where
  "new_manager opt_concurrency opt_defaultBackoff opt_maxBackoff =
     \<lparr>concurrency = or_default opt_concurrency 20,
      defaultBackoff = or_default opt_defaultBackoff 1000,
      maxBackoff = or_default opt_maxBackoff 60000,
      sem = new_semaphore (or_default opt_concurrency 20),
      sessions = [], heap = (\<lambda>_. blank_entry), next_ref = 0,
      tasks = [], timers = [], conns = []\<rparr>"

definition new_entry :: "manager \<Rightarrow> entry" where
  "new_entry m = \<lparr>sock = None, backoffMs = defaultBackoff m, restarting = False, status = Stopped\<rparr>"

definition register :: "string \<Rightarrow> manager \<Rightarrow> manager" where
  "register sid m =
     (if jsmap_has (sessions m) sid then m
      else m\<lparr>sessions := jsmap_set sid (next_ref m) (sessions m),
             heap := (heap m)(next_ref m := new_entry m),
             next_ref := Suc (next_ref m)\<rparr>)"

definition unregister :: "string \<Rightarrow> manager \<Rightarrow> manager" where
  "unregister sid m = m\<lparr>sessions := jsmap_delete sid (sessions m)\<rparr>"

text \<open>What the awaiting caller does with the outcome: the timer closure's \<open>catch\<close> clears
  \<open>restarting\<close> on the entry it holds; the others only log.\<close>

fun settle :: "caller \<Rightarrow> start_error + nat \<Rightarrow> manager \<Rightarrow> manager" where
  "settle (FromTimer e) (Inl err) m = m\<lparr>heap := (heap m)(e := (heap m e)\<lparr>restarting := False\<rparr>)\<rparr>"
| "settle who res m = m"

text \<open>\<open>start(sessionId)\<close> up to its first \<open>await\<close>: register, return the entry's
  connection if it has one, otherwise call \<open>semaphore.acquire()\<close>. The new task's number
  is its index in \<open>tasks\<close>.\<close>

definition start_call :: "caller \<Rightarrow> string \<Rightarrow> manager \<Rightarrow> manager" where
  "start_call who sid m0 =
     (let m = register sid m0 in
      case jsmap_get (sessions m) sid of
        None \<Rightarrow> settle who (Inl FailedToRegister)
                  (m\<lparr>tasks := tasks m @ [\<lparr>t_sid = sid, t_entry = 0,
                        t_pc = Done (Inl FailedToRegister), t_caller = who\<rparr>]\<rparr>)
      | Some r \<Rightarrow>
          (case sock (heap m r) of
             Some c \<Rightarrow> m\<lparr>tasks := tasks m @ [\<lparr>t_sid = sid, t_entry = r,
                           t_pc = Done (Inr c), t_caller = who\<rparr>]\<rparr>
           | None \<Rightarrow>
               (let (granted, s') = acquire_call (length (tasks m)) (sem m)
                in m\<lparr>sem := s',
                      tasks := tasks m @ [\<lparr>t_sid = sid, t_entry = r,
                        t_pc = (if granted then SemGranted else SemWait), t_caller = who\<rparr>]\<rparr>)))"

text \<open>A suspended \<open>start\<close> resumes: a woken waiter finishes \<open>acquire\<close>; a task that holds
  its slot sets \<open>entry.status = 'starting'\<close> and calls the connection factory.\<close>

definition resume :: "nat \<Rightarrow> manager \<Rightarrow> manager" where
  "resume t m =
     (if t < length (tasks m) then
        (let tk = tasks m ! t in
         case t_pc tk of
           SemWoken \<Rightarrow> m\<lparr>sem := acquire_resume (sem m),
                          tasks := (tasks m)[t := tk\<lparr>t_pc := SemGranted\<rparr>]\<rparr>
         | SemGranted \<Rightarrow> m\<lparr>heap := (heap m)(t_entry tk := (heap m (t_entry tk))\<lparr>status := Starting\<rparr>),
                            tasks := (tasks m)[t := tk\<lparr>t_pc := AwaitFactory\<rparr>]\<rparr>
         | _ \<Rightarrow> m)
      else m)"

text \<open>The factory returns a new connection: the entry takes it, the entry is stored back
  under the id, and the task goes on to the settle delay.\<close>

definition factory_resolve :: "nat \<Rightarrow> manager \<Rightarrow> manager" where
  "factory_resolve t m =
     (if t < length (tasks m) \<and> t_pc (tasks m ! t) = AwaitFactory then
        (let tk = tasks m ! t; r = t_entry tk; c = length (conns m) in
         m\<lparr>conns := conns m @ [(t_sid tk, True)],
            heap := (heap m)(r := (heap m r)\<lparr>sock := Some c, status := Connected,
                      restarting := False, backoffMs := defaultBackoff m\<rparr>),
            sessions := jsmap_set (t_sid tk) r (sessions m),
            tasks := (tasks m)[t := tk\<lparr>t_pc := AwaitDelay (Inr c)\<rparr>]\<rparr>)
      else m)"

text \<open>The factory throws.\<close>

definition factory_reject :: "nat \<Rightarrow> manager \<Rightarrow> manager" where
  "factory_reject t m =
     (if t < length (tasks m) \<and> t_pc (tasks m ! t) = AwaitFactory then
        m\<lparr>tasks := (tasks m)[t := (tasks m ! t)\<lparr>t_pc := AwaitDelay (Inl FactoryError)\<rparr>]\<rparr>
      else m)"

definition wake :: "nat option \<Rightarrow> task list \<Rightarrow> task list" where
  "wake w ts = (case w of None \<Rightarrow> ts
     | Some x \<Rightarrow> if x < length ts then ts[x := (ts ! x)\<lparr>t_pc := SemWoken\<rparr>] else ts)"

text \<open>The settle delay in \<open>finally\<close> is over: \<open>release()\<close>, then the call finishes with
  its outcome.\<close>

definition delay_done :: "nat \<Rightarrow> manager \<Rightarrow> manager" where
  "delay_done t m =
     (if t < length (tasks m) then
        (let tk = tasks m ! t in
         case t_pc tk of
           AwaitDelay res \<Rightarrow>
             (let (w, s') = release (sem m)
              in settle (t_caller tk) res
                   (m\<lparr>sem := s', tasks := wake w ((tasks m)[t := tk\<lparr>t_pc := Done res\<rparr>])\<rparr>))
         | _ \<Rightarrow> m)
      else m)"

text \<open>A \<open>connection.update\<close> event: \<open>open\<close>, \<open>close\<close> with the status code and payload
  reason of \<open>lastDisconnect\<close>, or any other update.\<close>

datatype conn_update = Open | Close jsprim jsprim | Other

text \<open>\<open>entry.backoffMs || this.defaultBackoff\<close>\<close>

definition backoff_or_default :: "manager \<Rightarrow> entry \<Rightarrow> int" where
  "backoff_or_default m e = (if backoffMs e \<noteq> 0 then backoffMs e else defaultBackoff m)"

definition handleConnectionUpdate :: "string \<Rightarrow> conn_update \<Rightarrow> manager \<Rightarrow> manager" where
  "handleConnectionUpdate sid upd m =
     (case jsmap_get (sessions m) sid of
        None \<Rightarrow> m
      | Some r \<Rightarrow>
          (case upd of
             Open \<Rightarrow>
               m\<lparr>heap := (heap m)(r := (heap m r)\<lparr>status := Connected,
                      backoffMs := defaultBackoff m, restarting := False\<rparr>),
                  sessions := jsmap_set sid r (sessions m)\<rparr>
           | Close statusCode payloadReason \<Rightarrow>
               if isLoggedOut statusCode payloadReason
               then m\<lparr>sessions := jsmap_delete sid (sessions m)\<rparr>
               else if \<not> restarting (heap m r)
               then m\<lparr>heap := (heap m)(r := (heap m r)\<lparr>restarting := True, sock := None,
                           status := Reconnecting\<rparr>),
                       timers := timers m @ [\<lparr>tm_sid = sid, tm_entry = r,
                           tm_delay = backoff_or_default m (heap m r), tm_fired = False\<rparr>]\<rparr>
               else m
           | Other \<Rightarrow> m))"

definition close_conn :: "nat \<Rightarrow> (string \<times> bool) list \<Rightarrow> (string \<times> bool) list" where
  "close_conn c cs = (if c < length cs then cs[c := (fst (cs ! c), False)] else cs)"

text \<open>Connection \<open>c\<close> emits an update; its listener was bound to the session id the
  connection was made for. A connection that reports \<open>close\<close> is no longer live.\<close>

definition conn_event :: "nat \<Rightarrow> conn_update \<Rightarrow> manager \<Rightarrow> manager" where
  "conn_event c upd m =
     (if c < length (conns m) then
        handleConnectionUpdate (fst (conns m ! c)) upd
          (case upd of Close sc pr \<Rightarrow> m\<lparr>conns := close_conn c (conns m)\<rparr> | _ \<Rightarrow> m)
      else m)"

text \<open>The reconnect timer fires: the closure clears \<open>restarting\<close> and doubles the backoff
  (capped) on the entry it holds, then calls \<open>start\<close>.\<close>

definition fire_timer :: "nat \<Rightarrow> manager \<Rightarrow> manager" where
  "fire_timer k m =
     (if k < length (timers m) \<and> \<not> tm_fired (timers m ! k) then
        (let tm = timers m ! k; e = tm_entry tm in
         start_call (FromTimer e) (tm_sid tm)
           (m\<lparr>timers := (timers m)[k := tm\<lparr>tm_fired := True\<rparr>],
              heap := (heap m)(e := (heap m e)\<lparr>restarting := False,
                        backoffMs := min (backoff_or_default m (heap m e) * 2) (maxBackoff m)\<rparr>)\<rparr>))
      else m)"

definition stop :: "string \<Rightarrow> manager \<Rightarrow> bool \<times> manager" where
  "stop sid m =
     (case jsmap_get (sessions m) sid of
        None \<Rightarrow> (False, m)
      | Some r \<Rightarrow>
          (case sock (heap m r) of
             None \<Rightarrow> (False, m)
           | Some c \<Rightarrow>
               (True, m\<lparr>conns := close_conn c (conns m),
                        heap := (heap m)(r := (heap m r)\<lparr>sock := None, status := Stopped\<rparr>),
                        sessions := jsmap_set sid r (sessions m)\<rparr>)))"

definition logout :: "string \<Rightarrow> manager \<Rightarrow> bool \<times> manager" where
  "logout sid m =
     (case jsmap_get (sessions m) sid of
        None \<Rightarrow> (False, m)
      | Some r \<Rightarrow>
          (True, m\<lparr>conns := (case sock (heap m r) of None \<Rightarrow> conns m
                               | Some c \<Rightarrow> close_conn c (conns m)),
                   sessions := jsmap_delete sid (sessions m)\<rparr>))"

definition isRunning :: "string \<Rightarrow> manager \<Rightarrow> bool" where
  "isRunning sid m =
     (case jsmap_get (sessions m) sid of None \<Rightarrow> False | Some r \<Rightarrow> sock (heap m r) \<noteq> None)"

text \<open>\<open>list()\<close>: session id, status and backoff of every registered entry.\<close>

definition list_sessions :: "manager \<Rightarrow> (string \<times> status \<times> int) list" where
  "list_sessions m = map (\<lambda>p. (fst p, status (heap m (snd p)), backoffMs (heap m (snd p)))) (sessions m)"

text \<open>
  \<open>startAll()\<close>. \<open>keys.map(async (sid) => ...)\<close> calls every task function at once, so
  every \<open>start\<close> runs up to its first \<open>await\<close> and \<open>tasks\<close> is an array of promises.
  The batch loop then takes \<open>tasks.slice(i, i + concurrency)\<close> and calls each element as
  a function, which throws a \<open>TypeError\<close> at the first element of the first non-empty
  chunk. \<open>None\<close> stands for a loop that does not end.
\<close>

datatype startAll_error = TypeError

partial_function (option) startAll_loop :: "nat \<Rightarrow> nat \<Rightarrow> nat \<Rightarrow> startAll_error option option" where
  "startAll_loop c n i =
     (if i < n then
        (if min (i + c) n - i > 0 then Some (Some TypeError) else startAll_loop c n (i + c))
      else Some None)"

declare evict_while.simps [code]

declare startAll_loop.simps [code]

definition startAll :: "manager \<Rightarrow> startAll_error option option \<times> manager" where
  "startAll m =
     (let keys = map fst (sessions m);
          m' = foldl (\<lambda>s sid. start_call FromStartAll sid s) m keys
      in (startAll_loop (concurrency m) (length keys) 0, m'))"

text \<open>What can happen to a manager, one synchronous step at a time.\<close>

datatype event = CallRegister string | CallStart string | CallStop string | CallLogout string
  | CallStartAll | Resume nat | FactoryResolve nat | FactoryReject nat | DelayDone nat
  | ConnUpdate nat conn_update | TimerFire nat

fun step :: "event \<Rightarrow> manager \<Rightarrow> manager" where
  "step (CallRegister sid) m = register sid m"
| "step (CallStart sid) m = start_call External sid m"
| "step (CallStop sid) m = snd (stop sid m)"
| "step (CallLogout sid) m = snd (logout sid m)"
| "step CallStartAll m = snd (startAll m)"
| "step (Resume t) m = resume t m"
| "step (FactoryResolve t) m = factory_resolve t m"
| "step (FactoryReject t) m = factory_reject t m"
| "step (DelayDone t) m = delay_done t m"
| "step (ConnUpdate c upd) m = conn_event c upd m"
| "step (TimerFire k) m = fire_timer k m"

definition run :: "event list \<Rightarrow> manager \<Rightarrow> manager" where
  "run evs m = foldl (\<lambda>s e. step e s) m evs"

text \<open>The live connections made for a session id, and the delays of the timers set.\<close>

definition live_conns :: "string \<Rightarrow> manager \<Rightarrow> nat list" where
  "live_conns sid m = filter (\<lambda>c. conns m ! c = (sid, True)) [0..<length (conns m)]"

definition scheduled_delays :: "manager \<Rightarrow> int list" where
  "scheduled_delays m = map tm_delay (timers m)"

text \<open>The delay the specification promises after \<open>n\<close> consecutive transient closes.\<close>

definition spec_delay :: "int \<Rightarrow> int \<Rightarrow> nat \<Rightarrow> int" where
  "spec_delay base cap n = min (base * 2 ^ n) cap"

text \<open>
  Scenarios. A reconnect round that fails: a transient close is handled, the timer it set
  fires, and the \<open>start\<close> the timer calls runs on and fails in the factory.
\<close>

definition failed_round :: "string \<Rightarrow> jsprim \<Rightarrow> jsprim \<Rightarrow> manager \<Rightarrow> manager" where
  "failed_round sid sc pr m =
     (let k = length (timers m); t = length (tasks m) in
      delay_done t (factory_reject t (resume t
        (fire_timer k (handleConnectionUpdate sid (Close sc pr) m)))))"

fun failed_rounds :: "nat \<Rightarrow> string \<Rightarrow> jsprim \<Rightarrow> jsprim \<Rightarrow> manager \<Rightarrow> manager" where
  "failed_rounds 0 sid sc pr m = m"
| "failed_rounds (Suc n) sid sc pr m = failed_round sid sc pr (failed_rounds n sid sc pr m)"

text \<open>A call of \<open>start\<close> that runs on alone and whose factory call throws.\<close>

definition failed_start :: "string \<Rightarrow> manager \<Rightarrow> manager" where
  "failed_start sid m =
     (let t = length (tasks m) in run [CallStart sid, Resume t, FactoryReject t, DelayDone t] m)"

text \<open>\<open>logout(sid)\<close>, then the pending reconnect timer \<open>k\<close> fires.\<close>

definition logout_then_fire :: "string \<Rightarrow> nat \<Rightarrow> manager \<Rightarrow> manager" where
  "logout_then_fire sid k m = fire_timer k (snd (logout sid m))"

text \<open>The callbacks queued on the manager's semaphore belong to calls of \<open>start\<close> made
  so far.\<close>

definition queue_ok :: "manager \<Rightarrow> bool" where
  "queue_ok m = list_all (\<lambda>w. w < length (tasks m)) (queue (sem m))"

text \<open>A manager with default options after one session has been started with success.\<close>

definition one_connected :: manager where
  "one_connected = run [CallStart ''a'', Resume 0, FactoryResolve 0, DelayDone 0]
     (new_manager None None None)"

text \<open>The same manager after that connection has closed with a transient reason: a
  reconnect timer is pending.\<close>

definition reconnect_pending :: manager where
  "reconnect_pending = conn_event 0 (Close (Num 428) Undefined) one_connected"

section \<open>Facts about the primitives\<close>

lemma of_char_digit: "d < 10 \<Longrightarrow> (of_char (digit_char d) :: nat) = 48 + d"
  by (simp add: digit_char_def)

lemma digits_chars: "c \<in> set (digits n) \<Longrightarrow> (of_char c :: nat) < 65"
proof (induction n rule: digits.induct)
  case (1 n)
  show ?case
  proof (cases "n < 10")
    case True
    with 1(2) have "c = digit_char n" by (simp add: digits.simps)
    with True show ?thesis by (simp add: of_char_digit)
  next
    case False
    with 1(2) have "c \<in> set (digits (n div 10)) \<or> c = digit_char (n mod 10)"
      by (subst (asm) digits.simps) auto
    then show ?thesis
    proof
      assume "c \<in> set (digits (n div 10))"
      with 1(1) False show ?thesis by simp
    next
      assume "c = digit_char (n mod 10)"
      then show ?thesis by (simp add: of_char_digit)
    qed
  qed
qed

lemma String_num_chars: "c \<in> set (String_num i) \<Longrightarrow> (of_char c :: nat) < 65"
  by (auto simp: String_num_def dest: digits_chars split: if_splits)

lemma lower_char_below_A: "(of_char c :: nat) < 65 \<Longrightarrow> lower_char c = c"
  by (simp add: lower_char_def)

lemma startsWith_hd: "startsWith s t \<Longrightarrow> t \<noteq> [] \<Longrightarrow> s \<noteq> [] \<and> hd s = hd t"
  by (cases s; cases t) auto

lemma includes_str_hd: "includes_str s t \<Longrightarrow> t \<noteq> [] \<Longrightarrow> hd t \<in> set s"
  by (induction s) (auto dest: startsWith_hd)

text \<open>The decimal form of a number never contains the word \<open>loggedout\<close>.\<close>

lemma String_num_no_loggedout: "\<not> includes_str (toLowerCase (String_num i)) ''loggedout''"
proof
  assume "includes_str (toLowerCase (String_num i)) ''loggedout''"
  then have "CHR ''l'' \<in> set (toLowerCase (String_num i))"
    using includes_str_hd by fastforce
  then obtain c where c: "c \<in> set (String_num i)" and l: "lower_char c = CHR ''l''"
    by (auto simp: toLowerCase_def)
  from c have small: "(of_char c :: nat) < 65" by (rule String_num_chars)
  then have "c = CHR ''l''" using l by (simp add: lower_char_below_A)
  with small show False by simp
qed

section \<open>Close-reason classification\<close>

lemma includes_loggedOut_exact: "includes_str (toLowerCase ''loggedOut'') ''loggedout''"
  by code_simp

lemma no_keyword_in_absent:
  "\<not> includes_str (toLowerCase ''undefined'') ''loggedout''"
  "\<not> includes_str (toLowerCase ''undefined'') ''forbidden''"
  "\<not> includes_str (toLowerCase ''null'') ''loggedout''"
  by code_simp+

lemma isLoggedOut_typed:
  "isLoggedOut (num_opt sc) (str_opt pr) \<longleftrightarrow>
     (sc = Some 401
      \<or> (case pr of None \<Rightarrow> False
          | Some s \<Rightarrow> s = ''logout''
               \<or> includes_str (toLowerCase s) ''loggedout''
               \<or> includes_str (toLowerCase s) ''forbidden''))"
proof (cases sc)
  case None
  show ?thesis
  proof (cases pr)
    case None
    with \<open>sc = None\<close> show ?thesis
      by (simp add: isLoggedOut_def close_reason_def js_or_def no_keyword_in_absent)
  next
    case (Some s)
    with \<open>sc = None\<close> show ?thesis
      using includes_loggedOut_exact
      by (auto simp: isLoggedOut_def close_reason_def js_or_def no_keyword_in_absent)
  qed
next
  case (Some n)
  show ?thesis
  proof (cases pr)
    case None
    with \<open>sc = Some n\<close> show ?thesis
      by (auto simp: isLoggedOut_def close_reason_def js_or_def no_keyword_in_absent
          String_num_no_loggedout)
  next
    case (Some s)
    with \<open>sc = Some n\<close> show ?thesis
      using includes_loggedOut_exact
      by (auto simp: isLoggedOut_def close_reason_def js_or_def no_keyword_in_absent
          String_num_no_loggedout)
  qed
qed

text \<open>
  C1 (as the code has it). For a close reason with a numeric or absent status code and a
  string or absent payload reason, the close is permanent exactly when the status code is
  401, or the payload reason is exactly \<open>logout\<close>, or the payload reason contains,
  ignoring case, \<open>loggedout\<close> or \<open>forbidden\<close>; every other close is transient.
  Status code 401 is permanent whatever the payload is, and a payload reason containing
  \<open>forbidden\<close> (ignoring case) is permanent whatever the status code is.
\<close>

theorem classify_permanent_iff:
  "(classify (num_opt sc) (str_opt pr) = Permanent \<longleftrightarrow>
      (sc = Some 401
       \<or> (case pr of None \<Rightarrow> False
           | Some s \<Rightarrow> s = ''logout''
                \<or> includes_str (toLowerCase s) ''loggedout''
                \<or> includes_str (toLowerCase s) ''forbidden'')))
   \<and> classify (Num 401) p = Permanent
   \<and> (includes_str (toLowerCase s') ''forbidden'' \<longrightarrow> classify c (Str s') = Permanent)"
proof -
  have a: "classify (num_opt sc) (str_opt pr) = Permanent \<longleftrightarrow> isLoggedOut (num_opt sc) (str_opt pr)"
    by (simp add: classify_def)
  have b: "classify (Num 401) p = Permanent"
    by (simp add: classify_def isLoggedOut_def)
  have c: "includes_str (toLowerCase s') ''forbidden'' \<longrightarrow> classify c (Str s') = Permanent"
    by (simp add: classify_def isLoggedOut_def)
  show ?thesis using a b c isLoggedOut_typed by blast
qed

theorem classify_permanent_iff_witness:
  "classify (Num 500) (Str ''Access Forbidden'') = Permanent
   \<and> classify (Num 401) Undefined = Permanent
   \<and> classify (Num 428) Undefined = Transient
   \<and> classify Undefined (Str ''logout'') = Permanent"
proof -
  have f: "includes_str (toLowerCase ''Access Forbidden'') ''forbidden''" by code_simp
  have "classify (num_opt (Some 428)) (str_opt None) \<noteq> Permanent"
    using classify_permanent_iff [of "Some 428" None] by simp
  then have t: "classify (Num 428) Undefined = Transient"
    by (cases "classify (Num 428) Undefined") simp_all
  have l: "classify (num_opt None) (str_opt (Some ''logout'')) = Permanent"
    using classify_permanent_iff [of None "Some ''logout''"] by simp
  from classify_permanent_iff [of None None Undefined "''Access Forbidden''" "Num 500"] f t l
  show ?thesis by simp
qed

text \<open>
  C1 as the specification states it fails: a payload reason that merely contains
  \<open>logout\<close> is transient in the code, which compares with \<open>logout\<close> for equality.
\<close>

theorem classify_logout_substring_counterexample:
  "classify Undefined (Str ''logout requested'') = Transient
   \<and> spec_classify Undefined (Str ''logout requested'') = Permanent"
  by code_simp

section \<open>Keyed store: maps and eviction\<close>

lemma jsmap_set_new: "k \<notin> fst ` set m \<Longrightarrow> jsmap_set k v m = m @ [(k, v)]"
  by (induction m) auto

lemma jsmap_get_set_same: "jsmap_get (jsmap_set k v m) k = Some v"
  by (induction m) (auto simp: jsmap_get_def)

lemma length_jsmap_set:
  "length (jsmap_set k v m) = (if k \<in> fst ` set m then length m else Suc (length m))"
  by (induction m) auto

lemma keys_jsmap_set:
  "map fst (jsmap_set k v m) = (if k \<in> fst ` set m then map fst m else map fst m @ [k])"
  by (induction m) auto

lemma distinct_jsmap_set: "distinct (map fst m) \<Longrightarrow> distinct (map fst (jsmap_set k v m))"
  by (simp add: keys_jsmap_set)

lemma jsmap_delete_absent: "k \<notin> fst ` set (jsmap_delete k m)"
  by (auto simp: jsmap_delete_def)

lemma jsmap_delete_id: "k \<notin> fst ` set m \<Longrightarrow> jsmap_delete k m = m"
  by (induction m) (auto simp: jsmap_delete_def)

lemma jsmap_get_None: "jsmap_get m k = None \<longleftrightarrow> k \<notin> fst ` set m"
  by (simp add: jsmap_get_def map_of_eq_None_iff)

lemma jsmap_get_Some_in: "jsmap_get m k = Some v \<Longrightarrow> k \<in> fst ` set m"
  using jsmap_get_None [of m k] by auto

lemma jsmap_has_iff: "jsmap_has m k \<longleftrightarrow> k \<in> fst ` set m"
  by (simp add: jsmap_has_def map_of_eq_None_iff)

lemma delete_first_distinct: "distinct (map fst (p # m)) \<Longrightarrow> delete_first (p # m) = m"
  by (simp add: delete_first_def jsmap_delete_def) (metis (mono_tags, lifting) filter_True image_eqI)

lemma evict_while_within: "int (length m) \<le> cap \<Longrightarrow> evict_while cap m = Some m"
  by (subst evict_while.simps) simp

lemma evict_while_distinct:
  "0 \<le> cap \<Longrightarrow> distinct (map fst m) \<Longrightarrow> evict_while cap m = Some (drop (length m - nat cap) m)"
proof (induction m)
  case Nil
  then show ?case by (simp add: evict_while_within)
next
  case (Cons p m)
  show ?case
  proof (cases "int (length (p # m)) > cap")
    case True
    then have "evict_while cap (p # m) = evict_while cap (delete_first (p # m))"
      by (subst evict_while.simps) simp
    also have "\<dots> = evict_while cap m"
      using Cons.prems(2) by (simp only: delete_first_distinct)
    also have "\<dots> = Some (drop (length m - nat cap) m)"
      using Cons by simp
    also have "drop (length m - nat cap) m = drop (length (p # m) - nat cap) (p # m)"
    proof -
      from True Cons.prems(1) have "nat cap \<le> length m" by simp
      then have "length (p # m) - nat cap = Suc (length m - nat cap)" by simp
      then show ?thesis by simp
    qed
    finally show ?thesis .
  next
    case False
    then show ?thesis by (simp add: evict_while_within)
  qed
qed

lemma jsmap_get_mutate_same:
  "k \<in> fst ` set m \<Longrightarrow> jsmap_get (jsmap_mutate k (\<lambda>_. v) m) k = Some v"
  by (induction m) (auto simp: jsmap_get_def jsmap_mutate_def)

lemma keys_jsmap_mutate: "map fst (jsmap_mutate k f m) = map fst m"
  by (induction m) (auto simp: jsmap_mutate_def)

lemma jsmap_mutate_append_last:
  "k \<notin> fst ` set m \<Longrightarrow> jsmap_mutate k f (m @ [(k, v)]) = m @ [(k, f v)]"
  by (induction m) (auto simp: jsmap_mutate_def)


lemma deepClone_id: "deepClone v = v"
proof (induction v)
  case (JArr xs)
  then show ?case by (simp add: map_idI)
next
  case (JObj kvs)
  have "map (map_prod id deepClone) kvs = kvs"
  proof (rule map_idI)
    fix p assume "p \<in> set kvs"
    with JObj show "map_prod id deepClone p = p"
      by (cases p) (auto simp: snds.simps)
  qed
  then show ?case by simp
qed simp_all

lemma ensureUserMap_present:
  "jsmap_get (store d) u = Some m \<Longrightarrow>
   ensureUserMap u d = Some (m, if cap_set (maxUsers d) then touch u m d else d)"
  by (simp add: ensureUserMap_def)

lemma store_touch:
  "store (touch u m d) = jsmap_delete u (store d) @ [(u, m)]"
  by (simp add: touch_def jsmap_set_new jsmap_delete_absent)

lemma applyLRU_distinct:
  "cap_ok (maxUsers d) \<Longrightarrow> distinct (map fst (store d)) \<Longrightarrow>
   applyLRUIfNeeded d =
     Some (if cap_set (maxUsers d)
           then d\<lparr>store := drop (length (store d) - nat (the (maxUsers d))) (store d)\<rparr> else d)"
  by (cases "maxUsers d") (auto simp: applyLRUIfNeeded_def evict_while_distinct)

lemma ensureUserMap_absent:
  assumes "jsmap_get (store d) u = None" and "cap_ok (maxUsers d)"
    and "distinct (map fst (store d))"
  shows "ensureUserMap u d =
     Some ([], if cap_set (maxUsers d)
               then d\<lparr>store := drop (Suc (length (store d)) - nat (the (maxUsers d)))
                                   (store d @ [(u, [])])\<rparr>
               else d\<lparr>store := store d @ [(u, [])]\<rparr>)"
proof -
  from assms(1) have notin: "u \<notin> fst ` set (store d)" by (simp add: jsmap_get_None)
  let ?d1 = "d\<lparr>store := jsmap_set u [] (store d)\<rparr>"
  have s1: "store ?d1 = store d @ [(u, [])]" using notin by (simp add: jsmap_set_new)
  have "distinct (map fst (store ?d1))" using assms(3) notin by (simp add: s1)
  moreover have "cap_ok (maxUsers ?d1)" using assms(2) by simp
  ultimately have "applyLRUIfNeeded ?d1 =
     Some (if cap_set (maxUsers ?d1)
           then ?d1\<lparr>store := drop (length (store ?d1) - nat (the (maxUsers ?d1))) (store ?d1)\<rparr> else ?d1)"
    using applyLRU_distinct [of ?d1] by blast
  then show ?thesis using assms(1) s1 by (simp add: ensureUserMap_def)
qed

lemma applyMaxKeys_keeps:
  assumes "cap_ok (maxKeysPerUser d)" and "distinct (map fst m)" and "within_cap (maxKeysPerUser d) m"
  shows "\<exists>m'. applyMaxKeysToUser d (jsmap_set key val m) = Some m' \<and> jsmap_get m' key = Some val"
proof (cases "cap_set (maxKeysPerUser d)")
  case False
  then show ?thesis by (simp add: applyMaxKeysToUser_def jsmap_get_set_same)
next
  case True
  then obtain c where c: "maxKeysPerUser d = Some c" "0 < c"
    using assms(1) by (cases "maxKeysPerUser d") auto
  from assms(3) True c have len: "int (length m) \<le> c" by (simp add: within_cap_def)
  let ?m = "jsmap_set key val m"
  have ev: "applyMaxKeysToUser d ?m = Some (drop (length ?m - nat c) ?m)"
    using True c assms(2) by (simp add: applyMaxKeysToUser_def evict_while_distinct distinct_jsmap_set)
  show ?thesis
  proof (cases "key \<in> fst ` set m")
    case True
    then have "length ?m - nat c = 0" using len by (simp add: length_jsmap_set)
    then show ?thesis using ev by (simp add: jsmap_get_set_same)
  next
    case False
    then have app: "?m = m @ [(key, val)]" by (rule jsmap_set_new)
    have n: "length ?m - nat c \<le> length m" using c by (simp add: app)
    then have "drop (length ?m - nat c) ?m = drop (length ?m - nat c) m @ [(key, val)]"
      by (simp add: app)
    moreover have "key \<notin> fst ` set (drop (length ?m - nat c) m)"
    proof
      assume "key \<in> fst ` set (drop (length ?m - nat c) m)"
      then obtain p where "p \<in> set (drop (length ?m - nat c) m)" "fst p = key" by auto
      then have "p \<in> set m" by (meson in_set_dropD)
      with \<open>fst p = key\<close> False show False by auto
    qed
    ultimately have "jsmap_get (drop (length ?m - nat c) ?m) key = Some val"
      by (simp add: jsmap_get_def map_of_eq_None_iff map_add_Some_iff)
    then show ?thesis using ev by simp
  qed
qed


lemma drop_keep_last: "0 < c \<Longrightarrow> drop (Suc (length s) - nat c) (s @ [x]) = drop (Suc (length s) - nat c) s @ [x]"
  by simp

lemma usermap_ok_lookup:
  "db_ok d \<Longrightarrow> jsmap_get (store d) u = Some m \<Longrightarrow> usermap_ok d m"
proof -
  assume ok: "db_ok d" and g: "jsmap_get (store d) u = Some m"
  from g have "(u, m) \<in> set (store d)" by (simp add: jsmap_get_def map_of_SomeD)
  then have "m \<in> set (map snd (store d))" by force
  with ok show ?thesis by (auto simp: db_ok_def list_all_iff)
qed

lemma db_set_result:
  assumes ok: "db_ok d"
  shows "\<exists>d' m'. db_set u key val d = Some d'
           \<and> jsmap_get (store d') (coerce_owner u) = Some m' \<and> jsmap_get m' key = Some val
           \<and> maxUsers d' = maxUsers d \<and> maxKeysPerUser d' = maxKeysPerUser d
           \<and> returnDirectRef d' = returnDirectRef d
           \<and> fst ` set (store d') \<subseteq> insert (coerce_owner u) (fst ` set (store d))"
proof -
  let ?u = "coerce_owner u"
  from ok have cu: "cap_ok (maxUsers d)" and ck: "cap_ok (maxKeysPerUser d)"
    and dist: "distinct (map fst (store d))" by (simp_all add: db_ok_def)
  show ?thesis
  proof (cases "jsmap_get (store d) ?u")
    case None
    define d1 where "d1 = (if cap_set (maxUsers d)
               then d\<lparr>store := drop (Suc (length (store d)) - nat (the (maxUsers d)))
                                   (store d @ [(?u, [])])\<rparr>
               else d\<lparr>store := store d @ [(?u, [])]\<rparr>)"
    have e: "ensureUserMap ?u d = Some ([], d1)"
      unfolding d1_def using None cu dist by (rule ensureUserMap_absent)
    have mk1: "maxKeysPerUser d1 = maxKeysPerUser d" by (simp add: d1_def)
    have "within_cap (maxKeysPerUser d1) ([] :: usermap)"
      using ck mk1 by (cases "maxKeysPerUser d") (auto simp: within_cap_def)
    then obtain m' where m': "applyMaxKeysToUser d1 (jsmap_set key val []) = Some m'"
        "jsmap_get m' key = Some val"
      using applyMaxKeys_keeps [of d1 "[]" key val] ck mk1 by auto
    have pos: "cap_set (maxUsers d) \<Longrightarrow> 0 < the (maxUsers d)"
      using cu by (cases "maxUsers d") auto
    have s1: "\<exists>pre. store d1 = pre @ [(?u, [])] \<and> set pre \<subseteq> set (store d)"
    proof (cases "cap_set (maxUsers d)")
      case True
      then have "store d1 = drop (Suc (length (store d)) - nat (the (maxUsers d))) (store d) @ [(?u, [])]"
        using pos by (simp add: d1_def)
      then show ?thesis by (metis set_drop_subset)
    next
      case False
      then show ?thesis by (simp add: d1_def)
    qed
    then obtain pre where pre: "store d1 = pre @ [(?u, [])]" "set pre \<subseteq> set (store d)" by blast
    have inkeys: "?u \<in> fst ` set (store d1)" using pre by simp
    let ?d' = "d1\<lparr>store := jsmap_mutate ?u (\<lambda>_. m') (store d1)\<rparr>"
    have r: "db_set u key val d = Some ?d'"
      using e m' by (simp add: db_set_def)
    have same_keys: "map fst (store ?d') = map fst (store d1)"
      by (simp add: keys_jsmap_mutate)
    have "fst ` set (store ?d') = fst ` set (store d1)"
      using arg_cong [OF same_keys, of set] by (simp only: set_map)
    also have "\<dots> \<subseteq> insert ?u (fst ` set (store d))" using pre by auto
    finally have sub: "fst ` set (store ?d') \<subseteq> insert ?u (fst ` set (store d))" .
    have "jsmap_get (store ?d') ?u = Some m'"
      using inkeys by (simp add: jsmap_get_mutate_same)
    moreover have "maxUsers ?d' = maxUsers d" "maxKeysPerUser ?d' = maxKeysPerUser d"
      "returnDirectRef ?d' = returnDirectRef d" by (simp_all add: d1_def)
    ultimately show ?thesis using r m'(2) sub by blast
  next
    case (Some m)
    define d1 where "d1 = (if cap_set (maxUsers d) then touch ?u m d else d)"
    have e: "ensureUserMap ?u d = Some (m, d1)"
      unfolding d1_def using Some by (rule ensureUserMap_present)
    have mk1: "maxKeysPerUser d1 = maxKeysPerUser d" by (simp add: d1_def touch_def)
    from usermap_ok_lookup [OF ok Some] have "distinct (map fst m)" "within_cap (maxKeysPerUser d1) m"
      by (simp_all add: usermap_ok_def mk1)
    then obtain m' where m': "applyMaxKeysToUser d1 (jsmap_set key val m) = Some m'"
        "jsmap_get m' key = Some val"
      using applyMaxKeys_keeps [of d1 m key val] ck mk1 by auto
    have uin: "?u \<in> fst ` set (store d)" using Some by (rule jsmap_get_Some_in)
    have keys1: "fst ` set (store d1) = fst ` set (store d)"
    proof (cases "cap_set (maxUsers d)")
      case True
      then have "store d1 = jsmap_delete ?u (store d) @ [(?u, m)]" by (simp add: d1_def store_touch)
      then show ?thesis using uin by (auto simp: jsmap_delete_def)
    next
      case False
      then show ?thesis by (simp add: d1_def)
    qed
    let ?d' = "d1\<lparr>store := jsmap_mutate ?u (\<lambda>_. m') (store d1)\<rparr>"
    have r: "db_set u key val d = Some ?d'"
      using e m' by (simp add: db_set_def)
    have same_keys: "map fst (store ?d') = map fst (store d1)"
      by (simp add: keys_jsmap_mutate)
    have "fst ` set (store ?d') = fst ` set (store d1)"
      using arg_cong [OF same_keys, of set] by (simp only: set_map)
    then have sub: "fst ` set (store ?d') \<subseteq> insert ?u (fst ` set (store d))" using keys1 by auto
    have "jsmap_get (store ?d') ?u = Some m'"
      using uin keys1 by (simp add: jsmap_get_mutate_same)
    moreover have "maxUsers ?d' = maxUsers d" "maxKeysPerUser ?d' = maxKeysPerUser d"
      "returnDirectRef ?d' = returnDirectRef d" by (simp_all add: d1_def touch_def)
    ultimately show ?thesis using r m'(2) sub by blast
  qed
qed

lemma db_get_value:
  assumes "jsmap_get (store d) u = Some m" and "jsmap_get m key = Some val" and "json_truthy val"
  shows "fst (db_get u key d) = val"
  using assms by (simp add: db_get_def Let_def deepClone_id)

lemma db_get_absent: "jsmap_get (store d) u = None \<Longrightarrow> db_get u key d = (JNull, d)"
  by (simp add: db_get_def)

text \<open>
  C7 (as the code has it). For every string owner id, key and truthy JSON value
  (any object or array, a non-zero number, a non-empty string, \<open>true\<close>), on a store
  that satisfies its data invariant, \<open>set(owner, key, V)\<close> returns and the
  \<open>get(owner, key)\<close> that follows returns a value equal to \<open>V\<close>.
\<close>

theorem set_then_get_truthy:
  assumes "db_ok d" and "json_truthy val"
  shows "get_after_set (Str s) (Str s) key val d = Some val"
proof -
  from db_set_result [OF assms(1), of "Str s" key val]
  obtain d' m' where "db_set (Str s) key val d = Some d'"
    "jsmap_get (store d') (Str s) = Some m'" "jsmap_get m' key = Some val" by auto
  then show ?thesis using assms(2) by (simp add: get_after_set_def db_get_value)
qed

theorem set_then_get_truthy_witness:
  "db_ok (new_db (Some 2) (Some 2) False)
   \<and> json_truthy (JObj [(''status'', JBool True)])
   \<and> get_after_set (Str ''u1'') (Str ''u1'') ''k'' (JObj [(''status'', JBool True)])
         (new_db (Some 2) (Some 2) False) = Some (JObj [(''status'', JBool True)])"
proof -
  have ok: "db_ok (new_db (Some 2) (Some 2) False)"
    by (simp add: db_ok_def new_db_def)
  have tr: "json_truthy (JObj [(''status'', JBool True)])" by simp
  from set_then_get_truthy [OF ok tr] ok tr show ?thesis by simp
qed

text \<open>
  C7 as the specification states it fails for a falsy value: after storing the number 0
  the read returns \<open>null\<close>, because \<open>get\<close> answers \<open>null\<close> for every falsy value.
\<close>

theorem set_then_get_falsy_counterexample:
  "get_after_set (Str ''u1'') (Str ''u1'') ''k'' (JNum 0) (new_db None None True) = Some JNull"
  by (simp add: get_after_set_def db_get_def db_set_def new_db_def ensureUserMap_def jsmap_get_def applyLRUIfNeeded_def applyMaxKeysToUser_def jsmap_mutate_def)

section \<open>Keyed store: owner recency and eviction\<close>

lemma notin_drop: "k \<notin> fst ` set s \<Longrightarrow> k \<notin> fst ` set (drop n s)"
proof
  assume a: "k \<notin> fst ` set s" and "k \<in> fst ` set (drop n s)"
  then obtain p where "p \<in> set (drop n s)" "fst p = k" by auto
  then have "p \<in> set s" by (meson in_set_dropD)
  with \<open>fst p = k\<close> a show False by auto
qed

lemma length_jsmap_delete_distinct:
  "distinct (map fst s) \<Longrightarrow> k \<in> fst ` set s \<Longrightarrow> Suc (length (jsmap_delete k s)) = length s"
proof (induction s)
  case Nil
  then show ?case by simp
next
  case (Cons p s)
  show ?case
  proof (cases "fst p = k")
    case True
    with Cons.prems(1) have "k \<notin> fst ` set s" by auto
    then have "jsmap_delete k s = s" by (rule jsmap_delete_id)
    with True show ?thesis by (simp add: jsmap_delete_def)
  next
    case False
    with Cons have "Suc (length (jsmap_delete k s)) = length s" by auto
    with False show ?thesis by (simp add: jsmap_delete_def)
  qed
qed

lemma db_set_lru:
  assumes ok: "db_ok d" and cap: "maxUsers d = Some c" "0 < c"
  shows "\<exists>d' m'. db_set u key val d = Some d'
           \<and> maxUsers d' = maxUsers d \<and> maxKeysPerUser d' = maxKeysPerUser d
           \<and> returnDirectRef d' = returnDirectRef d
           \<and> jsmap_get m' key = Some val
           \<and> store d' = (if jsmap_has (store d) (coerce_owner u)
                         then jsmap_delete (coerce_owner u) (store d)
                         else drop (Suc (length (store d)) - nat c) (store d))
                        @ [(coerce_owner u, m')]"
proof -
  let ?u = "coerce_owner u"
  from ok have cu: "cap_ok (maxUsers d)" and ck: "cap_ok (maxKeysPerUser d)"
    and dist: "distinct (map fst (store d))" by (simp_all add: db_ok_def)
  from cap have cs: "cap_set (maxUsers d)" by simp
  show ?thesis
  proof (cases "jsmap_get (store d) ?u")
    case None
    then have nothas: "\<not> jsmap_has (store d) ?u" by (simp add: jsmap_has_def jsmap_get_def)
    from None have notin: "?u \<notin> fst ` set (store d)" by (simp add: jsmap_get_None)
    define pre where "pre = drop (Suc (length (store d)) - nat c) (store d)"
    define d1 where "d1 = d\<lparr>store := pre @ [(?u, [])]\<rparr>"
    have "ensureUserMap ?u d = Some ([], if cap_set (maxUsers d)
               then d\<lparr>store := drop (Suc (length (store d)) - nat (the (maxUsers d)))
                                   (store d @ [(?u, [])])\<rparr>
               else d\<lparr>store := store d @ [(?u, [])]\<rparr>)"
      using None cu dist by (rule ensureUserMap_absent)
    then have e: "ensureUserMap ?u d = Some ([], d1)"
      using cap by (simp add: d1_def pre_def)
    have mk1: "maxKeysPerUser d1 = maxKeysPerUser d" by (simp add: d1_def)
    have "within_cap (maxKeysPerUser d1) ([] :: usermap)"
      using ck mk1 by (cases "maxKeysPerUser d") (auto simp: within_cap_def)
    then obtain m' where m': "applyMaxKeysToUser d1 (jsmap_set key val []) = Some m'"
        "jsmap_get m' key = Some val"
      using applyMaxKeys_keeps [of d1 "[]" key val] ck mk1 by auto
    have "?u \<notin> fst ` set pre" unfolding pre_def using notin by (rule notin_drop)
    then have mut: "jsmap_mutate ?u (\<lambda>_. m') (store d1) = pre @ [(?u, m')]"
      by (simp add: d1_def jsmap_mutate_append_last)
    let ?d' = "d1\<lparr>store := pre @ [(?u, m')]\<rparr>"
    have r: "db_set u key val d = Some ?d'"
      using e m' mut by (simp add: db_set_def)
    have f: "maxUsers ?d' = maxUsers d" "maxKeysPerUser ?d' = maxKeysPerUser d"
      "returnDirectRef ?d' = returnDirectRef d" "store ?d' = pre @ [(?u, m')]"
      by (simp_all add: d1_def)
    show ?thesis
      apply (rule exI [of _ ?d'], rule exI [of _ m'])
      using r m'(2) nothas f(4) unfolding d1_def pre_def by simp
  next
    case (Some m)
    then have has: "jsmap_has (store d) ?u" by (simp add: jsmap_has_def jsmap_get_def)
    define pre where "pre = jsmap_delete ?u (store d)"
    define d1 where "d1 = touch ?u m d"
    have e: "ensureUserMap ?u d = Some (m, d1)"
      using ensureUserMap_present [OF Some] cs by (simp add: d1_def)
    have mk1: "maxKeysPerUser d1 = maxKeysPerUser d" by (simp add: d1_def touch_def)
    have st1: "store d1 = pre @ [(?u, m)]" by (simp add: d1_def pre_def store_touch)
    from usermap_ok_lookup [OF ok Some] have "distinct (map fst m)" "within_cap (maxKeysPerUser d1) m"
      by (simp_all add: usermap_ok_def mk1)
    then obtain m' where m': "applyMaxKeysToUser d1 (jsmap_set key val m) = Some m'"
        "jsmap_get m' key = Some val"
      using applyMaxKeys_keeps [of d1 m key val] ck mk1 by auto
    have "?u \<notin> fst ` set pre" unfolding pre_def by (rule jsmap_delete_absent)
    then have mut: "jsmap_mutate ?u (\<lambda>_. m') (store d1) = pre @ [(?u, m')]"
      by (simp add: st1 jsmap_mutate_append_last)
    let ?d' = "d1\<lparr>store := pre @ [(?u, m')]\<rparr>"
    have r: "db_set u key val d = Some ?d'"
      using e m' mut by (simp add: db_set_def)
    have f: "maxUsers ?d' = maxUsers d" "maxKeysPerUser ?d' = maxKeysPerUser d"
      "returnDirectRef ?d' = returnDirectRef d" "store ?d' = pre @ [(?u, m')]"
      by (simp_all add: d1_def touch_def)
    show ?thesis
      apply (rule exI [of _ ?d'], rule exI [of _ m'])
      using r m'(2) has f unfolding pre_def by simp
  qed
qed


lemma db_get_store:
  assumes "jsmap_get (store d) u = Some m" and "cap_set (maxUsers d)"
  shows "store (snd (db_get u key d)) = jsmap_delete u (store d) @ [(u, m)]"
proof -
  from assms(1) have h: "jsmap_has (store d) u" by (simp add: jsmap_has_def jsmap_get_def)
  have "snd (db_get u key d) = touch u m d"
    unfolding db_get_def Let_def using assms h by simp
  then show ?thesis by (simp add: store_touch)
qed

lemma db_getAll_store:
  assumes "jsmap_get (store d) u = Some m" and "cap_set (maxUsers d)"
  shows "store (snd (db_getAll u d)) = jsmap_delete u (store d) @ [(u, m)]"
  using assms by (simp add: db_getAll_def store_touch)

lemma db_get_absent_store: "jsmap_get (store d) u = None \<Longrightarrow> snd (db_get u key d) = d"
  by (simp add: db_get_def)

lemma db_get_fields:
  "maxUsers (snd (db_get u key d)) = maxUsers d"
  "maxKeysPerUser (snd (db_get u key d)) = maxKeysPerUser d"
proof -
  have "snd (db_get u key d) = d \<or> (\<exists>m. snd (db_get u key d) = touch u m d)"
    by (cases "jsmap_get (store d) u") (auto simp: db_get_def Let_def)
  then show "maxUsers (snd (db_get u key d)) = maxUsers d"
    "maxKeysPerUser (snd (db_get u key d)) = maxKeysPerUser d"
    by (auto simp: touch_def)
qed

lemma distinct_move_last:
  assumes "distinct (map fst s)" and "jsmap_get s u = Some m"
  shows "distinct (map fst (jsmap_delete u s @ [(u, m)]))"
    and "set (jsmap_delete u s @ [(u, m)]) = set s"
proof -
  from assms(2) have mem: "(u, m) \<in> set s" by (simp add: jsmap_get_def map_of_SomeD)
  have d1: "distinct (map fst (jsmap_delete u s))"
    using assms(1) by (simp add: jsmap_delete_def distinct_map_filter)
  moreover have "u \<notin> fst ` set (jsmap_delete u s)" by (rule jsmap_delete_absent)
  ultimately show "distinct (map fst (jsmap_delete u s @ [(u, m)]))" by simp
  have uniq: "p = (u, m)" if "p \<in> set s" "fst p = u" for p
  proof -
    obtain k v where p: "p = (k, v)" by (cases p)
    with that have "(u, v) \<in> set s" by simp
    from eq_key_imp_eq_value [OF assms(1) mem this] have "v = m" by simp
    with p that(2) show ?thesis by simp
  qed
  show "set (jsmap_delete u s @ [(u, m)]) = set s"
  proof (rule set_eqI)
    fix p
    show "p \<in> set (jsmap_delete u s @ [(u, m)]) \<longleftrightarrow> p \<in> set s"
    proof (cases "fst p = u")
      case True
      then have "p \<in> set s \<longleftrightarrow> p = (u, m)" using uniq mem by blast
      with True show ?thesis by (simp add: jsmap_delete_def)
    next
      case False
      then have "p \<noteq> (u, m)" by auto
      with False show ?thesis by (simp add: jsmap_delete_def)
    qed
  qed
qed

lemma db_ok_get:
  assumes "db_ok d"
  shows "db_ok (snd (db_get u key d))"
proof (cases "jsmap_get (store d) u")
  case None
  then show ?thesis using assms by (simp add: db_get_absent_store)
next
  case (Some m)
  show ?thesis
  proof (cases "cap_set (maxUsers d)")
    case False
    then have "snd (db_get u key d) = d" using Some by (simp add: db_get_def Let_def)
    then show ?thesis using assms by simp
  next
    case True
    let ?d' = "snd (db_get u key d)"
    have st: "store ?d' = jsmap_delete u (store d) @ [(u, m)]"
      using Some True by (rule db_get_store)
    from assms have dist: "distinct (map fst (store d))" by (simp add: db_ok_def)
    have a: "distinct (map fst (store ?d'))" and b: "set (store ?d') = set (store d)"
      using distinct_move_last [OF dist Some] st by simp_all
    have c: "usermap_ok ?d' = usermap_ok d"
      by (rule ext) (simp add: usermap_ok_def db_get_fields)
    show ?thesis using assms a b c
      by (simp add: db_ok_def db_get_fields list_all_iff)
  qed
qed


lemma db_getAll_fields_store:
  "jsmap_get (store d) u = None \<Longrightarrow> db_getAll u d = (None, d)"
  by (simp add: db_getAll_def)

text \<open>
  C8 (as the code has it). With an owner cap \<open>c > 0\<close> in force on a store that
  satisfies its data invariant: a \<open>get\<close> or \<open>getAll\<close> of a present owner moves it to
  the most recent (last) position; every \<open>set\<close> returns and leaves its owner last; a
  \<open>set\<close> for a new owner keeps the most recent owners in order, dropping owners from the
  front (the oldest) until at most \<open>c\<close> remain, while a \<open>set\<close> for a present owner
  keeps the count; with \<open>c = 2\<close> and owners \<open>a, b\<close>, a \<open>get\<close> of \<open>a\<close> followed
  by a \<open>set\<close> for a new owner leaves exactly \<open>a\<close> and the new owner: \<open>b\<close> is
  evicted; and a store that holds at most \<open>c\<close> owners still does after a \<open>get\<close>, a
  \<open>getAll\<close> or a \<open>set\<close>.
\<close>

theorem owner_lru_touch:
  assumes ok: "db_ok d" and cap: "maxUsers d = Some c" and pos: "0 < c"
  shows "(jsmap_get (store d) u = Some m \<longrightarrow>
            store (snd (db_get u key d)) = jsmap_delete u (store d) @ [(u, m)]
          \<and> store (snd (db_getAll u d)) = jsmap_delete u (store d) @ [(u, m)])
       \<and> (\<exists>d'. db_set u key val d = Some d'
              \<and> fst (last (store d')) = coerce_owner u
              \<and> (\<not> jsmap_has (store d) (coerce_owner u) \<longrightarrow>
                   map fst (store d') =
                     drop (Suc (length (store d)) - nat c) (map fst (store d) @ [coerce_owner u])
                   \<and> int (length (store d')) \<le> c)
              \<and> (jsmap_has (store d) (coerce_owner u) \<longrightarrow> length (store d') = length (store d)))
       \<and> (c = 2 \<and> store d = [(a, ma), (b, mb)] \<and> coerce_owner w \<notin> {a, b} \<longrightarrow>
            (\<exists>d2. db_set w key' val' (snd (db_get a key d)) = Some d2
               \<and> map fst (store d2) = [a, coerce_owner w]))
       \<and> (int (length (store d)) \<le> c \<longrightarrow>
            int (length (store (snd (db_get u key d)))) \<le> c
          \<and> int (length (store (snd (db_getAll u d)))) \<le> c
          \<and> (\<exists>d'. db_set u key val d = Some d' \<and> int (length (store d')) \<le> c))"
proof -
  from cap have cs: "cap_set (maxUsers d)" using pos by simp
  from ok have dist: "distinct (map fst (store d))" by (simp add: db_ok_def)
  have p1: "jsmap_get (store d) u = Some m \<longrightarrow>
            store (snd (db_get u key d)) = jsmap_delete u (store d) @ [(u, m)]
          \<and> store (snd (db_getAll u d)) = jsmap_delete u (store d) @ [(u, m)]"
    using cs by (simp add: db_get_store db_getAll_store)
  have p2: "\<exists>d'. db_set u key val d = Some d'
              \<and> fst (last (store d')) = coerce_owner u
              \<and> (\<not> jsmap_has (store d) (coerce_owner u) \<longrightarrow>
                   map fst (store d') =
                     drop (Suc (length (store d)) - nat c) (map fst (store d) @ [coerce_owner u])
                   \<and> int (length (store d')) \<le> c)
              \<and> (jsmap_has (store d) (coerce_owner u) \<longrightarrow> length (store d') = length (store d))"
  proof -
    from db_set_lru [OF ok cap pos, of u key val]
    obtain d' m' where r: "db_set u key val d = Some d'"
      and st: "store d' = (if jsmap_has (store d) (coerce_owner u)
                         then jsmap_delete (coerce_owner u) (store d)
                         else drop (Suc (length (store d)) - nat c) (store d))
                        @ [(coerce_owner u, m')]" by blast
    have l: "fst (last (store d')) = coerce_owner u" by (simp add: st)
    have n: "\<not> jsmap_has (store d) (coerce_owner u) \<longrightarrow>
                   map fst (store d') =
                     drop (Suc (length (store d)) - nat c) (map fst (store d) @ [coerce_owner u])
                   \<and> int (length (store d')) \<le> c"
    proof
      assume nh: "\<not> jsmap_has (store d) (coerce_owner u)"
      have le: "Suc (length (store d)) - nat c \<le> length (store d)" using pos by simp
      from nh st have st': "store d' = drop (Suc (length (store d)) - nat c) (store d) @ [(coerce_owner u, m')]"
        by simp
      have "map fst (store d') = drop (Suc (length (store d)) - nat c) (map fst (store d)) @ [coerce_owner u]"
        by (simp add: st' drop_map)
      also have "\<dots> = drop (Suc (length (store d)) - nat c) (map fst (store d) @ [coerce_owner u])"
        using le by simp
      finally have a: "map fst (store d') =
          drop (Suc (length (store d)) - nat c) (map fst (store d) @ [coerce_owner u])" .
      have "length (store d') = Suc (length (store d) - (Suc (length (store d)) - nat c))"
        by (simp add: st')
      then have b: "int (length (store d')) \<le> c" using pos by linarith
      from a b show "map fst (store d') =
                     drop (Suc (length (store d)) - nat c) (map fst (store d) @ [coerce_owner u])
                   \<and> int (length (store d')) \<le> c" ..
    qed
    have h: "jsmap_has (store d) (coerce_owner u) \<longrightarrow> length (store d') = length (store d)"
    proof
      assume hs: "jsmap_has (store d) (coerce_owner u)"
      then have "coerce_owner u \<in> fst ` set (store d)" by (simp add: jsmap_has_iff)
      from length_jsmap_delete_distinct [OF dist this] hs st
      show "length (store d') = length (store d)" by simp
    qed
    from r l n h show ?thesis by blast
  qed
  have p3: "c = 2 \<and> store d = [(a, ma), (b, mb)] \<and> coerce_owner w \<notin> {a, b} \<longrightarrow>
            (\<exists>d2. db_set w key' val' (snd (db_get a key d)) = Some d2
               \<and> map fst (store d2) = [a, coerce_owner w])"
  proof
    assume h: "c = 2 \<and> store d = [(a, ma), (b, mb)] \<and> coerce_owner w \<notin> {a, b}"
    then have c2: "c = 2" and sd: "store d = [(a, ma), (b, mb)]" and wn: "coerce_owner w \<notin> {a, b}"
      by simp_all
    from dist sd have ab: "a \<noteq> b" by simp
    let ?d1 = "snd (db_get a key d)"
    have ga: "jsmap_get (store d) a = Some ma" by (simp add: sd jsmap_get_def)
    have s1: "store ?d1 = [(b, mb), (a, ma)]"
      using db_get_store [OF ga cs, of key] ab by (simp add: sd jsmap_delete_def)
    have ok1: "db_ok ?d1" using ok by (rule db_ok_get)
    have cap1: "maxUsers ?d1 = Some c" using cap by (simp add: db_get_fields)
    have nh: "\<not> jsmap_has (store ?d1) (coerce_owner w)"
      using wn by (auto simp: s1 jsmap_has_def)
    from db_set_lru [OF ok1 cap1 pos, of w key' val']
    obtain d2 m' where r: "db_set w key' val' ?d1 = Some d2"
      and st: "store d2 = (if jsmap_has (store ?d1) (coerce_owner w)
                         then jsmap_delete (coerce_owner w) (store ?d1)
                         else drop (Suc (length (store ?d1)) - nat c) (store ?d1))
                        @ [(coerce_owner w, m')]" by blast
    from st nh have "store d2 = [(a, ma), (coerce_owner w, m')]"
      by (simp add: s1 c2)
    with r show "\<exists>d2. db_set w key' val' ?d1 = Some d2 \<and> map fst (store d2) = [a, coerce_owner w]"
      by simp
  qed
  have p4: "int (length (store d)) \<le> c \<longrightarrow>
            int (length (store (snd (db_get u key d)))) \<le> c
          \<and> int (length (store (snd (db_getAll u d)))) \<le> c
          \<and> (\<exists>d'. db_set u key val d = Some d' \<and> int (length (store d')) \<le> c)"
  proof
    assume le: "int (length (store d)) \<le> c"
    have moved: "length (jsmap_delete u (store d) @ [(u, x)]) = length (store d)"
      if "jsmap_get (store d) u = Some x" for x
      using length_jsmap_delete_distinct [OF dist jsmap_get_Some_in [OF that]] by simp
    have g: "length (store (snd (db_get u key d))) = length (store d)"
    proof (cases "jsmap_get (store d) u")
      case None
      then show ?thesis by (simp add: db_get_absent_store)
    next
      case (Some x)
      from db_get_store [OF Some cs, of key] moved [OF Some] show ?thesis by simp
    qed
    have ga: "length (store (snd (db_getAll u d))) = length (store d)"
    proof (cases "jsmap_get (store d) u")
      case None
      then show ?thesis by (simp add: db_getAll_def)
    next
      case (Some x)
      from db_getAll_store [OF Some cs] moved [OF Some] show ?thesis by simp
    qed
    from p2 obtain d' where r: "db_set u key val d = Some d'"
      and n: "\<not> jsmap_has (store d) (coerce_owner u) \<longrightarrow> int (length (store d')) \<le> c"
      and h: "jsmap_has (store d) (coerce_owner u) \<longrightarrow> length (store d') = length (store d)"
      by blast
    have "int (length (store d')) \<le> c"
      using n h le by (cases "jsmap_has (store d) (coerce_owner u)") simp_all
    with r have s: "\<exists>d'. db_set u key val d = Some d' \<and> int (length (store d')) \<le> c" by blast
    from g ga s le show "int (length (store (snd (db_get u key d)))) \<le> c
          \<and> int (length (store (snd (db_getAll u d)))) \<le> c
          \<and> (\<exists>d'. db_set u key val d = Some d' \<and> int (length (store d')) \<le> c)" by simp
  qed
  from p1 p2 p3 p4 show ?thesis by blast
qed

theorem owner_lru_touch_witness:
  "db_ok two_owners \<and> maxUsers two_owners = Some 2
   \<and> store (snd (db_get (Str ''a'') ''k'' two_owners))
        = [(Str ''b'', [(''k'', JNum 2)]), (Str ''a'', [(''k'', JNum 1)])]
   \<and> (\<exists>d2. db_set (Str ''c'') ''k'' (JNum 3) (snd (db_get (Str ''a'') ''k'' two_owners)) = Some d2
          \<and> map fst (store d2) = [Str ''a'', Str ''c''])
   \<and> int (length (store two_owners)) \<le> 2
   \<and> int (length (store (snd (db_get (Str ''a'') ''k'' two_owners)))) \<le> 2"
proof -
  have ok: "db_ok two_owners"
    by (simp add: db_ok_def two_owners_def usermap_ok_def within_cap_def)
  have cap: "maxUsers two_owners = Some 2" by (simp add: two_owners_def)
  have st: "store two_owners = [(Str ''a'', [(''k'', JNum 1)]), (Str ''b'', [(''k'', JNum 2)])]"
    by (simp add: two_owners_def)
  have g: "jsmap_get (store two_owners) (Str ''a'') = Some [(''k'', JNum 1)]"
    by (simp add: st jsmap_get_def)
  have del: "jsmap_delete (Str ''a'') (store two_owners) = [(Str ''b'', [(''k'', JNum 2)])]"
    by (simp add: st jsmap_delete_def)
  have nw: "coerce_owner (Str ''c'') \<notin> {Str ''a'', Str ''b''}" by simp
  have pos: "(0::int) < 2" by simp
  from owner_lru_touch [OF ok cap pos, where u = "Str ''a''" and m = "[(''k'', JNum 1)]"
      and key = "''k''" and a = "Str ''a''" and ma = "[(''k'', JNum 1)]" and b = "Str ''b''"
      and mb = "[(''k'', JNum 2)]" and w = "Str ''c''" and key' = "''k''" and val' = "JNum 3"]
    g st nw del ok cap
  show ?thesis by simp
qed

text \<open>
  C8 as the specification states it fails in two ways. The constructor copies the snapshot
  file into the store without applying the cap, and only the insertion of a new owner
  evicts: with cap 2 and a snapshot of three owners the store holds three owners, and
  still does after a \<open>get\<close> of a present owner. And with no cap configured (the
  default) a \<open>get\<close> does not move the owner it touches.
\<close>

theorem owner_count_over_cap_counterexample:
  "length (store (construct_db (Some 2) None True three_owner_snapshot)) = 3
   \<and> map fst (store (snd (db_get (Str ''a'') ''k''
         (construct_db (Some 2) None True three_owner_snapshot))))
       = [Str ''b'', Str ''c'', Str ''a'']
   \<and> map fst (store (snd (db_get (Str ''a'') ''k''
         (construct_db None None True three_owner_snapshot))))
       = [Str ''a'', Str ''b'', Str ''c'']"
  by code_simp

section \<open>Keyed store: numeric owner ids\<close>

lemma no_numeric_owner_absent:
  "no_numeric_owner d \<Longrightarrow> jsmap_get (store d) (Num n) = None"
proof -
  assume "no_numeric_owner d"
  then have "Num n \<notin> fst ` set (store d)"
    by (force simp: no_numeric_owner_def list_all_iff)
  then show ?thesis by (simp add: jsmap_get_None)
qed

text \<open>
  C10 (as the code has it). \<open>set\<close> stores a numeric owner id under its decimal string,
  and the read operations do not coerce: on a store that satisfies its data invariant and
  holds no numeric owner id, after \<open>set(n, key, v)\<close> with a truthy value \<open>v\<close>,
  \<open>get(n, key)\<close> returns \<open>null\<close> while \<open>get(String(n), key)\<close> returns \<open>v\<close>;
  \<open>getAll(n)\<close> returns \<open>null\<close>, and \<open>delKey(n, key)\<close> and \<open>delUser(n)\<close> return
  \<open>false\<close>.
\<close>

theorem numeric_owner_read_not_coerced:
  assumes ok: "db_ok d" and nn: "no_numeric_owner d" and tr: "json_truthy val"
  shows "\<exists>d'. db_set (Num n) key val d = Some d'
          \<and> fst (db_get (Num n) key d') = JNull
          \<and> fst (db_get (Str (String_num n)) key d') = val
          \<and> fst (db_getAll (Num n) d') = None
          \<and> fst (db_delKey (Num n) key d') = False
          \<and> fst (db_delUser (Num n) d') = False"
proof -
  from db_set_result [OF ok, of "Num n" key val]
  obtain d' m' where r: "db_set (Num n) key val d = Some d'"
    and g: "jsmap_get (store d') (Str (String_num n)) = Some m'" "jsmap_get m' key = Some val"
    and sub: "fst ` set (store d') \<subseteq> insert (Str (String_num n)) (fst ` set (store d))"
    by auto
  from nn have "jsmap_get (store d) (Num n) = None" by (rule no_numeric_owner_absent)
  then have "Num n \<notin> fst ` set (store d)" by (simp add: jsmap_get_None)
  with sub have "Num n \<notin> fst ` set (store d')" by auto
  then have absent: "jsmap_get (store d') (Num n) = None" by (simp add: jsmap_get_None)
  have a: "fst (db_get (Num n) key d') = JNull" using absent by (simp add: db_get_absent)
  have b: "fst (db_get (Str (String_num n)) key d') = val" using g tr by (rule db_get_value)
  have c: "fst (db_getAll (Num n) d') = None" using absent by (simp add: db_getAll_def)
  have e: "fst (db_delKey (Num n) key d') = False" using absent by (simp add: db_delKey_def)
  have f: "fst (db_delUser (Num n) d') = False"
    using absent by (simp add: db_delUser_def jsmap_has_def jsmap_get_def)
  from r a b c e f show ?thesis by blast
qed

lemma String_num_7: "String_num 7 = ''7''"
  by code_simp

theorem numeric_owner_read_not_coerced_witness:
  "db_ok (new_db None None True) \<and> no_numeric_owner (new_db None None True)
   \<and> json_truthy (JStr ''on'')
   \<and> (\<exists>d'. db_set (Num 7) ''k'' (JStr ''on'') (new_db None None True) = Some d'
          \<and> fst (db_get (Num 7) ''k'' d') = JNull
          \<and> fst (db_get (Str ''7'') ''k'' d') = JStr ''on'')"
proof -
  have ok: "db_ok (new_db None None True)" by (simp add: db_ok_def new_db_def)
  have nn: "no_numeric_owner (new_db None None True)" by (simp add: no_numeric_owner_def new_db_def)
  have tr: "json_truthy (JStr ''on'')" by simp
  from numeric_owner_read_not_coerced [OF ok nn tr, of 7 "''k''"] ok nn tr String_num_7
  show ?thesis by auto
qed

text \<open>
  C10 as stated fails for a falsy value: after \<open>set(7, key, false)\<close> the read under the
  string id returns \<open>null\<close>, not \<open>false\<close>.
\<close>

theorem numeric_owner_falsy_counterexample:
  "get_after_set (Str ''7'') (Num 7) ''k'' (JBool False) (new_db None None True) = Some JNull"
  by (simp add: get_after_set_def db_get_def db_set_def new_db_def ensureUserMap_def jsmap_get_def
      applyLRUIfNeeded_def applyMaxKeysToUser_def jsmap_mutate_def String_num_7)

section \<open>Session manager: what each step leaves alone\<close>

lemma jsmap_get_delete_same: "jsmap_get (jsmap_delete k m) k = None"
  using jsmap_delete_absent [of k m] by (simp add: jsmap_get_None)

lemma jsmap_has_get: "jsmap_has m k \<longleftrightarrow> jsmap_get m k \<noteq> None"
  by (simp add: jsmap_has_def jsmap_get_def)

lemma jsmap_set_same_value: "jsmap_get m k = Some v \<Longrightarrow> distinct (map fst m) \<Longrightarrow> jsmap_set k v m = m"
  by (induction m) (auto simp: jsmap_get_def split: if_splits)

lemma settle_frame:
  "sessions (settle who res m) = sessions m"
  "defaultBackoff (settle who res m) = defaultBackoff m"
  "maxBackoff (settle who res m) = maxBackoff m"
  "timers (settle who res m) = timers m"
  "tasks (settle who res m) = tasks m"
  "sem (settle who res m) = sem m"
  "conns (settle who res m) = conns m"
  "next_ref (settle who res m) = next_ref m"
  "backoffMs (heap (settle who res m) x) = backoffMs (heap m x)"
  "sock (heap (settle who res m) x) = sock (heap m x)"
  "status (heap (settle who res m) x) = status (heap m x)"
  by (cases who; cases res; simp)+

lemma settle_restarting:
  "restarting (heap (settle who res m) x) \<Longrightarrow> restarting (heap m x)"
  by (cases who; cases res; simp split: if_splits)

lemma resume_frame:
  "sessions (resume t m) = sessions m"
  "defaultBackoff (resume t m) = defaultBackoff m"
  "maxBackoff (resume t m) = maxBackoff m"
  "timers (resume t m) = timers m"
  "conns (resume t m) = conns m"
  "backoffMs (heap (resume t m) x) = backoffMs (heap m x)"
  "sock (heap (resume t m) x) = sock (heap m x)"
  "restarting (heap (resume t m) x) = restarting (heap m x)"
  by (simp_all add: resume_def Let_def split: pc.splits)

lemma factory_reject_frame:
  "sessions (factory_reject t m) = sessions m"
  "defaultBackoff (factory_reject t m) = defaultBackoff m"
  "maxBackoff (factory_reject t m) = maxBackoff m"
  "timers (factory_reject t m) = timers m"
  "conns (factory_reject t m) = conns m"
  "sem (factory_reject t m) = sem m"
  "heap (factory_reject t m) = heap m"
  by (simp_all add: factory_reject_def)

lemma delay_done_frame:
  "sessions (delay_done t m) = sessions m"
  "defaultBackoff (delay_done t m) = defaultBackoff m"
  "maxBackoff (delay_done t m) = maxBackoff m"
  "timers (delay_done t m) = timers m"
  "conns (delay_done t m) = conns m"
  "backoffMs (heap (delay_done t m) x) = backoffMs (heap m x)"
  "sock (heap (delay_done t m) x) = sock (heap m x)"
  "status (heap (delay_done t m) x) = status (heap m x)"
  by (simp_all add: delay_done_def Let_def settle_frame split: pc.splits prod.splits)

lemma delay_done_restarting:
  assumes "restarting (heap (delay_done t m) x)"
  shows "restarting (heap m x)"
proof (cases "t < length (tasks m)")
  case False
  with assms show ?thesis by (simp add: delay_done_def)
next
  case True
  show ?thesis
  proof (cases "t_pc (tasks m ! t)")
    case (AwaitDelay res)
    obtain w s' where rel: "release (sem m) = (w, s')" by (cases "release (sem m)")
    let ?m1 = "m\<lparr>sem := s', tasks := wake w ((tasks m)[t := (tasks m ! t)\<lparr>t_pc := Done res\<rparr>])\<rparr>"
    have "delay_done t m = settle (t_caller (tasks m ! t)) res ?m1"
      using True AwaitDelay rel by (simp add: delay_done_def Let_def)
    with assms have "restarting (heap ?m1 x)" using settle_restarting by metis
    then show ?thesis by simp
  qed (use assms True in \<open>simp_all add: delay_done_def Let_def\<close>)
qed

lemma register_present: "jsmap_get (sessions m) sid = Some r \<Longrightarrow> register sid m = m"
  by (simp add: register_def jsmap_has_get)

lemma register_absent:
  "jsmap_get (sessions m) sid = None \<Longrightarrow>
   register sid m = m\<lparr>sessions := sessions m @ [(sid, next_ref m)],
                       heap := (heap m)(next_ref m := new_entry m),
                       next_ref := Suc (next_ref m)\<rparr>"
  by (simp add: register_def jsmap_has_get jsmap_set_new jsmap_get_None)


section \<open>Session manager: reconnect backoff\<close>

lemma close_transient:
  assumes "jsmap_get (sessions m) sid = Some r" and "\<not> restarting (heap m r)"
    and "\<not> isLoggedOut sc pr"
  shows "handleConnectionUpdate sid (Close sc pr) m =
     m\<lparr>heap := (heap m)(r := (heap m r)\<lparr>restarting := True, sock := None, status := Reconnecting\<rparr>),
       timers := timers m @ [\<lparr>tm_sid = sid, tm_entry = r,
                  tm_delay = backoff_or_default m (heap m r), tm_fired = False\<rparr>]\<rparr>"
  using assms by (simp add: handleConnectionUpdate_def)

lemma start_call_waiting:
  assumes "jsmap_get (sessions m) sid = Some r" and "sock (heap m r) = None"
  shows "start_call who sid m =
     m\<lparr>sem := snd (acquire_call (length (tasks m)) (sem m)),
       tasks := tasks m @ [\<lparr>t_sid = sid, t_entry = r,
          t_pc = (if fst (acquire_call (length (tasks m)) (sem m)) then SemGranted else SemWait),
          t_caller = who\<rparr>]\<rparr>"
  using assms by (simp add: start_call_def register_present split: prod.splits)

lemma failed_round_inv:
  assumes reg: "jsmap_get (sessions m) sid = Some r" and nr: "\<not> restarting (heap m r)"
    and tr: "\<not> isLoggedOut sc pr"
  shows "jsmap_get (sessions (failed_round sid sc pr m)) sid = Some r"
    and "\<not> restarting (heap (failed_round sid sc pr m) r)"
    and "backoffMs (heap (failed_round sid sc pr m) r)
           = min (backoff_or_default m (heap m r) * 2) (maxBackoff m)"
    and "defaultBackoff (failed_round sid sc pr m) = defaultBackoff m"
    and "maxBackoff (failed_round sid sc pr m) = maxBackoff m"
proof -
  define h where "h = handleConnectionUpdate sid (Close sc pr) m"
  define k where "k = length (timers m)"
  define t where "t = length (tasks m)"
  define g where "g = h\<lparr>timers := (timers h)[k := (timers h ! k)\<lparr>tm_fired := True\<rparr>],
              heap := (heap h)(r := (heap h r)\<lparr>restarting := False,
                        backoffMs := min (backoff_or_default h (heap h r) * 2) (maxBackoff h)\<rparr>)\<rparr>"
  have h_eq: "h = m\<lparr>heap := (heap m)(r := (heap m r)\<lparr>restarting := True, sock := None, status := Reconnecting\<rparr>),
       timers := timers m @ [\<lparr>tm_sid = sid, tm_entry = r,
                  tm_delay = backoff_or_default m (heap m r), tm_fired = False\<rparr>]\<rparr>"
    unfolding h_def using reg nr tr by (rule close_transient)
  have tk: "timers h ! k = \<lparr>tm_sid = sid, tm_entry = r,
                  tm_delay = backoff_or_default m (heap m r), tm_fired = False\<rparr>"
    and kl: "k < length (timers h)"
    by (simp_all add: h_eq k_def)
  have fire: "fire_timer k h = start_call (FromTimer r) sid g"
    using tk kl by (simp add: fire_timer_def g_def Let_def)
  have g_sess: "jsmap_get (sessions g) sid = Some r" using reg by (simp add: g_def h_eq)
  have g_sock: "sock (heap g r) = None" by (simp add: g_def h_eq)
  have bd: "backoff_or_default h (heap h r) = backoff_or_default m (heap m r)"
    by (simp add: h_eq backoff_or_default_def)
  have g_heap: "backoffMs (heap g r) = min (backoff_or_default m (heap m r) * 2) (maxBackoff m)"
    "\<not> restarting (heap g r)"
    using bd by (simp_all add: g_def) (simp add: h_eq)
  define f where "f = fire_timer k h"
  have f_eq: "f = g\<lparr>sem := snd (acquire_call (length (tasks g)) (sem g)),
       tasks := tasks g @ [\<lparr>t_sid = sid, t_entry = r,
          t_pc = (if fst (acquire_call (length (tasks g)) (sem g)) then SemGranted else SemWait),
          t_caller = FromTimer r\<rparr>]\<rparr>"
    unfolding f_def fire using g_sess g_sock by (rule start_call_waiting)
  have f_facts: "jsmap_get (sessions f) sid = Some r" "\<not> restarting (heap f r)"
    "backoffMs (heap f r) = min (backoff_or_default m (heap m r) * 2) (maxBackoff m)"
    "defaultBackoff f = defaultBackoff m" "maxBackoff f = maxBackoff m"
    using g_sess g_heap by (simp_all add: f_eq) (simp_all add: g_def h_eq)
  have fr: "failed_round sid sc pr m = delay_done t (factory_reject t (resume t f))"
    by (simp add: failed_round_def Let_def f_def h_def k_def t_def)
  show "jsmap_get (sessions (failed_round sid sc pr m)) sid = Some r"
    using f_facts(1) by (simp add: fr delay_done_frame factory_reject_frame resume_frame)
  show "backoffMs (heap (failed_round sid sc pr m) r)
           = min (backoff_or_default m (heap m r) * 2) (maxBackoff m)"
    using f_facts(3) by (simp add: fr delay_done_frame factory_reject_frame resume_frame)
  show "defaultBackoff (failed_round sid sc pr m) = defaultBackoff m"
    using f_facts(4) by (simp add: fr delay_done_frame factory_reject_frame resume_frame)
  show "maxBackoff (failed_round sid sc pr m) = maxBackoff m"
    using f_facts(5) by (simp add: fr delay_done_frame factory_reject_frame resume_frame)
  show "\<not> restarting (heap (failed_round sid sc pr m) r)"
  proof
    assume "restarting (heap (failed_round sid sc pr m) r)"
    then have "restarting (heap (factory_reject t (resume t f)) r)"
      unfolding fr by (rule delay_done_restarting)
    then have "restarting (heap f r)"
      by (simp add: factory_reject_frame resume_frame)
    with f_facts(2) show False by simp
  qed
qed

lemma capped_double:
  fixes b cap :: int
  assumes "0 < cap" and "0 < b"
  shows "min (min (b * 2 ^ n) cap * 2) cap = min (b * 2 ^ Suc n) cap"
proof (cases "b * 2 ^ n \<le> cap")
  case True
  then show ?thesis by (simp add: min_def mult.assoc mult.commute)
next
  case False
  then have "cap < b * 2 ^ n" by simp
  then have "cap < b * 2 ^ Suc n" using assms by (simp add: mult.assoc) 
  with False assms show ?thesis by (simp add: min_def)
qed

lemma failed_rounds_inv:
  assumes reg: "jsmap_get (sessions m) sid = Some r" and nr: "\<not> restarting (heap m r)"
    and b0: "backoffMs (heap m r) = defaultBackoff m"
    and pos: "0 < defaultBackoff m" "0 < maxBackoff m"
    and tr: "\<not> isLoggedOut sc pr"
  shows "jsmap_get (sessions (failed_rounds n sid sc pr m)) sid = Some r
       \<and> \<not> restarting (heap (failed_rounds n sid sc pr m) r)
       \<and> defaultBackoff (failed_rounds n sid sc pr m) = defaultBackoff m
       \<and> maxBackoff (failed_rounds n sid sc pr m) = maxBackoff m
       \<and> backoffMs (heap (failed_rounds n sid sc pr m) r)
           = (if n = 0 then defaultBackoff m else min (defaultBackoff m * 2 ^ n) (maxBackoff m))"
proof (induction n)
  case 0
  then show ?case using reg nr b0 by simp
next
  case (Suc n)
  let ?p = "failed_rounds n sid sc pr m"
  from Suc have p: "jsmap_get (sessions ?p) sid = Some r" "\<not> restarting (heap ?p r)"
    "defaultBackoff ?p = defaultBackoff m" "maxBackoff ?p = maxBackoff m"
    "backoffMs (heap ?p r) = (if n = 0 then defaultBackoff m else min (defaultBackoff m * 2 ^ n) (maxBackoff m))"
    by simp_all
  have bpos: "0 < backoffMs (heap ?p r)" using p(5) pos by (simp add: min_def)
  then have bd: "backoff_or_default ?p (heap ?p r) = backoffMs (heap ?p r)"
    by (simp add: backoff_or_default_def)
  note inv = failed_round_inv [OF p(1) p(2) tr]
  have "backoffMs (heap (failed_round sid sc pr ?p) r) = min (backoffMs (heap ?p r) * 2) (maxBackoff m)"
    using inv(3) bd p(4) by simp
  also have "\<dots> = min (defaultBackoff m * 2 ^ Suc n) (maxBackoff m)"
  proof (cases "n = 0")
    case True
    then show ?thesis using p(5) by simp
  next
    case False
    then show ?thesis using p(5) capped_double [OF pos(2) pos(1), of n] by simp
  qed
  finally have "backoffMs (heap (failed_round sid sc pr ?p) r)
      = min (defaultBackoff m * 2 ^ Suc n) (maxBackoff m)" .
  then show ?case using inv p by simp
qed


text \<open>
  C4 (as the code has it). Take an entry whose backoff is the base value and for which no
  reconnect is pending (its state after a successful start or an \<open>open\<close> event), with
  \<open>0 < base\<close> and \<open>0 < cap\<close>. The first transient close schedules the reconnect after
  \<open>base\<close>. After \<open>n \<ge> 1\<close> rounds of transient close, timer and a reconnect whose
  start fails in the factory, the next transient close schedules the reconnect after
  \<open>min (base * 2 ^ n) cap\<close>. An \<open>open\<close> event resets the backoff to \<open>base\<close>, and so
  does every \<open>start\<close> whose factory call returns a connection.
\<close>

theorem backoff_after_failed_reconnects:
  assumes reg: "jsmap_get (sessions m) sid = Some r" and nr: "\<not> restarting (heap m r)"
    and b0: "backoffMs (heap m r) = defaultBackoff m"
    and pos: "0 < defaultBackoff m" "0 < maxBackoff m"
    and tr: "\<not> isLoggedOut sc pr"
  shows "tm_delay (last (timers (handleConnectionUpdate sid (Close sc pr)
                                   (failed_rounds n sid sc pr m))))
           = (if n = 0 then defaultBackoff m else min (defaultBackoff m * 2 ^ n) (maxBackoff m))
       \<and> backoffMs (heap (handleConnectionUpdate sid Open (failed_rounds n sid sc pr m)) r)
           = defaultBackoff m
       \<and> (t < length (tasks m') \<and> t_pc (tasks m' ! t) = AwaitFactory \<longrightarrow>
            backoffMs (heap (factory_resolve t m') (t_entry (tasks m' ! t))) = defaultBackoff m')"
proof -
  let ?p = "failed_rounds n sid sc pr m"
  from failed_rounds_inv [OF reg nr b0 pos tr, of n]
  have p: "jsmap_get (sessions ?p) sid = Some r" "\<not> restarting (heap ?p r)"
    "defaultBackoff ?p = defaultBackoff m" "maxBackoff ?p = maxBackoff m"
    "backoffMs (heap ?p r) = (if n = 0 then defaultBackoff m else min (defaultBackoff m * 2 ^ n) (maxBackoff m))"
    by simp_all
  have "0 < backoffMs (heap ?p r)" using p(5) pos by (simp add: min_def)
  then have bd: "backoff_or_default ?p (heap ?p r) = backoffMs (heap ?p r)"
    by (simp add: backoff_or_default_def)
  have a: "tm_delay (last (timers (handleConnectionUpdate sid (Close sc pr) ?p)))
           = (if n = 0 then defaultBackoff m else min (defaultBackoff m * 2 ^ n) (maxBackoff m))"
    using close_transient [OF p(1) p(2) tr] bd p(5) by simp
  have b: "backoffMs (heap (handleConnectionUpdate sid Open ?p) r) = defaultBackoff m"
    using p(1) p(3) by (simp add: handleConnectionUpdate_def)
  have c: "t < length (tasks m') \<and> t_pc (tasks m' ! t) = AwaitFactory \<longrightarrow>
            backoffMs (heap (factory_resolve t m') (t_entry (tasks m' ! t))) = defaultBackoff m'"
    by (simp add: factory_resolve_def Let_def)
  from a b c show ?thesis by blast
qed

lemma one_connected_facts:
  "jsmap_get (sessions one_connected) ''a'' = Some 0"
  "\<not> restarting (heap one_connected 0)"
  "backoffMs (heap one_connected 0) = 1000"
  "defaultBackoff one_connected = 1000"
  "maxBackoff one_connected = 60000"
  by code_simp+

lemma transient_428: "\<not> isLoggedOut (Num 428) Undefined"
  by code_simp

theorem backoff_after_failed_reconnects_witness:
  "tm_delay (last (timers (handleConnectionUpdate ''a'' (Close (Num 428) Undefined)
       (failed_rounds 3 ''a'' (Num 428) Undefined one_connected)))) = 8000
   \<and> tm_delay (last (timers (handleConnectionUpdate ''a'' (Close (Num 428) Undefined)
       (failed_rounds 7 ''a'' (Num 428) Undefined one_connected)))) = 60000
   \<and> tm_delay (last (timers (handleConnectionUpdate ''a'' (Close (Num 428) Undefined)
       one_connected))) = 1000"
proof -
  have pos: "0 < defaultBackoff one_connected" "0 < maxBackoff one_connected"
    by (simp_all add: one_connected_facts)
  have b0: "backoffMs (heap one_connected 0) = defaultBackoff one_connected"
    by (simp add: one_connected_facts)
  note th = backoff_after_failed_reconnects [OF one_connected_facts(1) one_connected_facts(2) b0 pos transient_428]
  from th [of 3] th [of 7] th [of 0] show ?thesis
    by (simp add: one_connected_facts)
qed

text \<open>
  C4 as the specification states it fails. A session is started, its connection closes
  with a transient reason, the reconnect succeeds in making a connection, and that
  connection closes again with no \<open>open\<close> event in between: both reconnects are scheduled
  after the base delay, 1000 ms, where the specification promises 2000 ms and 4000 ms.
\<close>

theorem backoff_reset_by_start_counterexample:
  "scheduled_delays (run [CallStart ''a'', Resume 0, FactoryResolve 0, DelayDone 0,
      ConnUpdate 0 (Close (Num 428) Undefined), TimerFire 0, Resume 1, FactoryResolve 1, DelayDone 1,
      ConnUpdate 1 (Close (Num 428) Undefined)] (new_manager None None None)) = [1000, 1000]
   \<and> spec_delay 1000 60000 1 = 2000 \<and> spec_delay 1000 60000 2 = 4000"
  by code_simp

section \<open>Semaphore: the bound on active holders\<close>

lemma release_wakes_oldest:
  "queue s = w # ws \<Longrightarrow> fst (release s) = Some w \<and> queue (snd (release s)) = ws"
  by (simp add: release_def)

lemma acquire_call_queues_last:
  "\<not> active s < limit s \<Longrightarrow> queue (snd (acquire_call w s)) = queue s @ [w]"
  by (simp add: acquire_call_def)

text \<open>
  C5, the code at the failing input. With limit 1: caller 0 acquires, caller 1 acquires
  and is suspended, caller 0 releases (which calls back caller 1), caller 2 acquires
  before caller 1 has resumed and gets the free slot at once, then caller 1 resumes and
  counts itself in. Two callers hold the semaphore and \<open>active\<close> is 2, above the limit.
\<close>

theorem semaphore_overshoot:
  "active (sem_of (sem_run [Acquire 0, Acquire 1, Release 0, Acquire 2, ResumeWaiter 1] (new_sem_sys 1))) = 2
   \<and> holders (sem_run [Acquire 0, Acquire 1, Release 0, Acquire 2, ResumeWaiter 1] (new_sem_sys 1)) = [2, 1]
   \<and> limit (sem_of (sem_run [Acquire 0, Acquire 1, Release 0, Acquire 2, ResumeWaiter 1] (new_sem_sys 1))) = 1"
  by code_simp

section \<open>Session manager: startAll\<close>

text \<open>
  C3, the code at the failing input. With concurrency 2 and the ids \<open>a\<close>, \<open>b\<close>, \<open>c\<close>
  registered, \<open>startAll()\<close> ends with a \<open>TypeError\<close> in its first batch, and by then all
  three starts have begun: the third is already queued on the semaphore rather than held back
  for a second batch.
\<close>

theorem startAll_type_error:
  "fst (startAll (run [CallRegister ''a'', CallRegister ''b'', CallRegister ''c'']
       (new_manager (Some 2) None None))) = Some (Some TypeError)
   \<and> map t_pc (tasks (snd (startAll (run [CallRegister ''a'', CallRegister ''b'', CallRegister ''c'']
       (new_manager (Some 2) None None))))) = [SemGranted, SemGranted, SemWait]"
  by code_simp

section \<open>Session manager: a start whose factory call throws\<close>

lemma register_lookup_new:
  "jsmap_get (sessions m) sid = None \<Longrightarrow>
   jsmap_get (sessions (register sid m)) sid = Some (next_ref m)"
  by (simp add: register_def jsmap_has_get jsmap_get_set_same)

lemma register_idem: "register sid (register sid m) = register sid m"
proof (cases "jsmap_get (sessions m) sid")
  case None
  then have "jsmap_get (sessions (register sid m)) sid = Some (next_ref m)"
    by (rule register_lookup_new)
  then show ?thesis by (rule register_present)
next
  case (Some r)
  then show ?thesis by (simp add: register_present)
qed

lemma start_call_register: "start_call who sid (register sid m) = start_call who sid m"
  by (simp add: start_call_def register_idem)

lemma register_frame:
  "tasks (register sid m) = tasks m" "sem (register sid m) = sem m"
  "conns (register sid m) = conns m" "timers (register sid m) = timers m"
  "defaultBackoff (register sid m) = defaultBackoff m"
  by (simp_all add: register_def)

lemma register_not_running:
  assumes "\<not> isRunning sid m"
  shows "\<exists>r. jsmap_get (sessions (register sid m)) sid = Some r
           \<and> sock (heap (register sid m) r) = None"
proof (cases "jsmap_get (sessions m) sid")
  case None
  then have "jsmap_get (sessions (register sid m)) sid = Some (next_ref m)"
    by (rule register_lookup_new)
  moreover have "sock (heap (register sid m) (next_ref m)) = None"
    using None by (simp add: register_absent new_entry_def)
  ultimately show ?thesis by blast
next
  case (Some r)
  with assms have "sock (heap m r) = None" by (simp add: isRunning_def)
  with Some show ?thesis by (simp add: register_present)
qed

lemma wake_other:
  assumes "w \<noteq> Some t"
  shows "wake w ts ! t = ts ! t"
  using assms by (cases w) (simp_all add: wake_def)

lemma list_sessions_member:
  "jsmap_get (sessions m) sid = Some r \<Longrightarrow>
   (sid, status (heap m r), backoffMs (heap m r)) \<in> set (list_sessions m)"
proof -
  assume "jsmap_get (sessions m) sid = Some r"
  then have "(sid, r) \<in> set (sessions m)" by (simp add: jsmap_get_def map_of_SomeD)
  then show ?thesis by (force simp: list_sessions_def)
qed

text \<open>
  C9. When \<open>start(id)\<close> runs for a session that is not running, with a free semaphore
  slot, and the connection factory throws: the call ends with the factory's error, the
  semaphore's active count is back at its value before the call, the entry is left with
  status \<open>starting\<close> and no connection, so \<open>list()\<close> reports \<open>starting\<close> for the id
  while \<open>isRunning(id)\<close> is false.
\<close>

theorem start_factory_failure:
  assumes free: "active (sem m) < limit (sem m)" and nrun: "\<not> isRunning sid m"
    and q: "queue_ok m"
  shows "t_pc (tasks (failed_start sid m) ! length (tasks m)) = Done (Inl FactoryError)
       \<and> active (sem (failed_start sid m)) = active (sem m)
       \<and> \<not> isRunning sid (failed_start sid m)
       \<and> (\<exists>b. (sid, Starting, b) \<in> set (list_sessions (failed_start sid m)))"
proof -
  define t where "t = length (tasks m)"
  define mR where "mR = register sid m"
  from register_not_running [OF nrun] obtain r
    where r: "jsmap_get (sessions mR) sid = Some r" "sock (heap mR r) = None"
    unfolding mR_def by blast
  have fR: "tasks mR = tasks m" "sem mR = sem m" by (simp_all add: mR_def register_frame)
  define tk where "tk = \<lparr>t_sid = sid, t_entry = r, t_pc = SemGranted, t_caller = External\<rparr>"
  define m1 where "m1 = start_call External sid m"
  have "m1 = start_call External sid mR" by (simp add: m1_def mR_def start_call_register)
  also have "\<dots> = mR\<lparr>sem := snd (acquire_call (length (tasks mR)) (sem mR)),
       tasks := tasks mR @ [\<lparr>t_sid = sid, t_entry = r,
          t_pc = (if fst (acquire_call (length (tasks mR)) (sem mR)) then SemGranted else SemWait),
          t_caller = External\<rparr>]\<rparr>"
    using r by (rule start_call_waiting)
  also have "\<dots> = mR\<lparr>sem := (sem m)\<lparr>active := active (sem m) + 1\<rparr>, tasks := tasks m @ [tk]\<rparr>"
    using free by (simp add: fR acquire_call_def tk_def)
  finally have m1: "m1 = mR\<lparr>sem := (sem m)\<lparr>active := active (sem m) + 1\<rparr>, tasks := tasks m @ [tk]\<rparr>" .
  define m2 where "m2 = resume t m1"
  have m2: "m2 = m1\<lparr>heap := (heap mR)(r := (heap mR r)\<lparr>status := Starting\<rparr>),
                    tasks := tasks m @ [tk\<lparr>t_pc := AwaitFactory\<rparr>]\<rparr>"
    by (simp add: m2_def resume_def m1 t_def tk_def)
  define m3 where "m3 = factory_reject t m2"
  have m3: "m3 = m2\<lparr>tasks := tasks m @ [tk\<lparr>t_pc := AwaitDelay (Inl FactoryError)\<rparr>]\<rparr>"
    by (simp add: m3_def factory_reject_def m2 t_def)
  define m4 where "m4 = delay_done t m3"
  obtain w s' where rel: "release (sem m3) = (w, s')" by (cases "release (sem m3)")
  have sem3: "sem m3 = (sem m)\<lparr>active := active (sem m) + 1\<rparr>" by (simp add: m3 m2 m1)
  have s': "active s' = active (sem m)"
    using rel by (auto simp: release_def sem3 Let_def split: list.splits)
  have wq: "w \<noteq> Some t"
  proof
    assume "w = Some t"
    with rel have "t \<in> set (queue (sem m))"
      by (auto simp: release_def sem3 Let_def split: list.splits)
    with q show False by (auto simp: queue_ok_def list_all_iff t_def)
  qed
  have m4: "m4 = m3\<lparr>sem := s', tasks := wake w (tasks m @ [tk\<lparr>t_pc := Done (Inl FactoryError)\<rparr>])\<rparr>"
    using rel by (simp add: m4_def delay_done_def m3 t_def tk_def)
  have fs: "failed_start sid m = m4"
    by (simp add: failed_start_def run_def Let_def m4_def m3_def m2_def m1_def t_def)
  have a: "t_pc (tasks m4 ! t) = Done (Inl FactoryError)"
    using wake_other [OF wq] by (simp add: m4 t_def)
  have b: "active (sem m4) = active (sem m)" by (simp add: m4 s')
  have sess: "jsmap_get (sessions m4) sid = Some r" using r(1) by (simp add: m4 m3 m2 m1)
  have st: "status (heap m4 r) = Starting" "sock (heap m4 r) = None"
    using r(2) by (simp_all add: m4 m3 m2 m1)
  have c: "\<not> isRunning sid m4" using sess st by (simp add: isRunning_def)
  have d: "\<exists>b. (sid, Starting, b) \<in> set (list_sessions m4)"
    using list_sessions_member [OF sess] st by auto
  from a b c d show ?thesis by (simp add: fs t_def)
qed

lemma new_manager_facts:
  "active (sem (new_manager None None None)) < limit (sem (new_manager None None None))"
  "\<not> isRunning ''a'' (new_manager None None None)"
  "queue_ok (new_manager None None None)"
  by code_simp+

theorem start_factory_failure_witness:
  "t_pc (tasks (failed_start ''a'' (new_manager None None None)) ! 0) = Done (Inl FactoryError)
   \<and> active (sem (failed_start ''a'' (new_manager None None None))) = 0
   \<and> \<not> isRunning ''a'' (failed_start ''a'' (new_manager None None None))
   \<and> list_sessions (failed_start ''a'' (new_manager None None None)) = [(''a'', Starting, 1000)]"
proof -
  have l: "list_sessions (failed_start ''a'' (new_manager None None None)) = [(''a'', Starting, 1000)]"
    by code_simp
  have z: "length (tasks (new_manager None None None)) = 0" "active (sem (new_manager None None None)) = 0"
    by code_simp+
  from start_factory_failure [OF new_manager_facts] l z show ?thesis by simp
qed

section \<open>Session manager: start on a running session\<close>

lemma start_call_running:
  assumes "jsmap_get (sessions m) sid = Some r" and "sock (heap m r) = Some c"
  shows "start_call who sid m =
     m\<lparr>tasks := tasks m @ [\<lparr>t_sid = sid, t_entry = r, t_pc = Done (Inr c), t_caller = who\<rparr>]\<rparr>"
  using assms by (simp add: start_call_def register_present)






text \<open>
  A call of \<open>start\<close> made before the session is running is another matter: the entry has
  no connection yet, so a second call made while the first is still waiting for the factory
  calls the factory too, and the id then has two live connections.
\<close>

lemma overlapping_starts_two_connections:
  "\<not> isRunning ''a'' (run [CallStart ''a'', Resume 0] (new_manager None None None))
   \<and> live_conns ''a'' (run [CallStart ''a'', Resume 0, CallStart ''a'', Resume 1,
      FactoryResolve 0, FactoryResolve 1] (new_manager None None None)) = [0, 1]"
  by code_simp

section \<open>Session manager: a reconnect timer that fires after logout\<close>

lemma logout_frame:
  "jsmap_get (sessions (snd (logout sid m))) sid = None"
  "timers (snd (logout sid m)) = timers m"
  "tasks (snd (logout sid m)) = tasks m"
  "sem (snd (logout sid m)) = sem m"
  "heap (snd (logout sid m)) = heap m"
  "next_ref (snd (logout sid m)) = next_ref m"
  "defaultBackoff (snd (logout sid m)) = defaultBackoff m"
  by (cases "jsmap_get (sessions m) sid"; simp add: logout_def jsmap_get_delete_same)+

text \<open>
  C6 (as the code has it). When a session is logged out while a reconnect timer is pending
  for it and the timer then fires, the \<open>start(id)\<close> it calls is not a no-op: it registers
  the id again with a new entry object (status \<open>stopped\<close>, base backoff) and begins a
  start for it, which takes a semaphore slot or queues for one; when a slot is free and the
  factory returns, the id is running again on a new connection.
\<close>

theorem reconnect_after_logout:
  assumes k: "k < length (timers m)" and nf: "\<not> tm_fired (timers m ! k)"
    and ts: "tm_sid (timers m ! k) = sid"
  shows "jsmap_get (sessions (logout_then_fire sid k m)) sid = Some (next_ref m)
       \<and> heap (logout_then_fire sid k m) (next_ref m) = new_entry m
       \<and> tasks (logout_then_fire sid k m)
           = tasks m @ [\<lparr>t_sid = sid, t_entry = next_ref m,
                 t_pc = (if active (sem m) < limit (sem m) then SemGranted else SemWait),
                 t_caller = FromTimer (tm_entry (timers m ! k))\<rparr>]
       \<and> (active (sem m) < limit (sem m) \<longrightarrow>
            isRunning sid (factory_resolve (length (tasks m))
                             (resume (length (tasks m)) (logout_then_fire sid k m)))
          \<and> conns (factory_resolve (length (tasks m))
                      (resume (length (tasks m)) (logout_then_fire sid k m)))
              = conns (snd (logout sid m)) @ [(sid, True)])"
proof -
  define m1 where "m1 = snd (logout sid m)"
  define e where "e = tm_entry (timers m ! k)"
  define t where "t = length (tasks m)"
  define g where "g = m1\<lparr>timers := (timers m1)[k := (timers m1 ! k)\<lparr>tm_fired := True\<rparr>],
              heap := (heap m1)(e := (heap m1 e)\<lparr>restarting := False,
                        backoffMs := min (backoff_or_default m1 (heap m1 e) * 2) (maxBackoff m1)\<rparr>)\<rparr>"
  have f1: "jsmap_get (sessions m1) sid = None" "timers m1 = timers m" "tasks m1 = tasks m"
    "sem m1 = sem m" "next_ref m1 = next_ref m" "defaultBackoff m1 = defaultBackoff m"
    by (simp_all add: m1_def logout_frame)
  have fire: "logout_then_fire sid k m = start_call (FromTimer e) sid g"
    using k nf ts by (simp add: logout_then_fire_def fire_timer_def Let_def g_def m1_def [symmetric] f1 e_def)
  have g_none: "jsmap_get (sessions g) sid = None" using f1(1) by (simp add: g_def)
  define gR where "gR = register sid g"
  have gR: "gR = g\<lparr>sessions := sessions g @ [(sid, next_ref g)],
                    heap := (heap g)(next_ref g := new_entry g), next_ref := Suc (next_ref g)\<rparr>"
    unfolding gR_def using g_none by (rule register_absent)
  have gf: "next_ref g = next_ref m" "new_entry g = new_entry m" "tasks g = tasks m" "sem g = sem m"
    "conns g = conns m1"
    by (simp_all add: g_def f1 new_entry_def)
  have look: "jsmap_get (sessions gR) sid = Some (next_ref m)"
    using register_lookup_new [OF g_none] by (simp add: gR_def gf)
  have sk: "sock (heap gR (next_ref m)) = None" by (simp add: gR gf new_entry_def)
  define f where "f = logout_then_fire sid k m"
  have "f = start_call (FromTimer e) sid gR"
    by (simp add: f_def fire gR_def start_call_register)
  also have "\<dots> = gR\<lparr>sem := snd (acquire_call (length (tasks gR)) (sem gR)),
       tasks := tasks gR @ [\<lparr>t_sid = sid, t_entry = next_ref m,
          t_pc = (if fst (acquire_call (length (tasks gR)) (sem gR)) then SemGranted else SemWait),
          t_caller = FromTimer e\<rparr>]\<rparr>"
    using look sk by (rule start_call_waiting)
  finally have f_eq: "f = gR\<lparr>sem := snd (acquire_call (length (tasks gR)) (sem gR)),
       tasks := tasks gR @ [\<lparr>t_sid = sid, t_entry = next_ref m,
          t_pc = (if fst (acquire_call (length (tasks gR)) (sem gR)) then SemGranted else SemWait),
          t_caller = FromTimer e\<rparr>]\<rparr>" .
  have gRf: "tasks gR = tasks m" "sem gR = sem m" "conns gR = conns m1"
    by (simp_all add: gR gf)
  have a: "jsmap_get (sessions f) sid = Some (next_ref m)" using look by (simp add: f_eq)
  have b: "heap f (next_ref m) = new_entry m" by (simp add: f_eq gR gf)
  have c: "tasks f = tasks m @ [\<lparr>t_sid = sid, t_entry = next_ref m,
                 t_pc = (if active (sem m) < limit (sem m) then SemGranted else SemWait),
                 t_caller = FromTimer e\<rparr>]"
    by (simp add: f_eq gRf acquire_call_def)
  have d: "active (sem m) < limit (sem m) \<longrightarrow>
            isRunning sid (factory_resolve t (resume t f))
          \<and> conns (factory_resolve t (resume t f)) = conns m1 @ [(sid, True)]"
  proof
    assume free: "active (sem m) < limit (sem m)"
    define tk where "tk = \<lparr>t_sid = sid, t_entry = next_ref m, t_pc = SemGranted, t_caller = FromTimer e\<rparr>"
    have tf: "tasks f = tasks m @ [tk]" using c free by (simp add: tk_def)
    define m2 where "m2 = resume t f"
    have m2: "m2 = f\<lparr>heap := (heap f)(next_ref m := (heap f (next_ref m))\<lparr>status := Starting\<rparr>),
                      tasks := tasks m @ [tk\<lparr>t_pc := AwaitFactory\<rparr>]\<rparr>"
      by (simp add: m2_def resume_def tf t_def tk_def)
    define m3 where "m3 = factory_resolve t m2"
    have m3s: "sessions m3 = jsmap_set sid (next_ref m) (sessions f)"
      and m3h: "sock (heap m3 (next_ref m)) = Some (length (conns f))"
      and m3c: "conns m3 = conns f @ [(sid, True)]"
      by (simp_all add: m3_def factory_resolve_def m2 t_def tk_def Let_def)
    have "jsmap_get (sessions m3) sid = Some (next_ref m)"
      by (simp add: m3s jsmap_get_set_same)
    then have "isRunning sid m3" using m3h by (simp add: isRunning_def)
    moreover have "conns f = conns m1" by (simp add: f_eq gRf)
    ultimately show "isRunning sid (factory_resolve t (resume t f))
          \<and> conns (factory_resolve t (resume t f)) = conns m1 @ [(sid, True)]"
      using m3c by (simp add: m3_def m2_def)
  qed
  from a b c d show ?thesis by (simp add: f_def t_def e_def m1_def)
qed


lemma reconnect_pending_facts:
  "0 < length (timers reconnect_pending)"
  "\<not> tm_fired (timers reconnect_pending ! 0)"
  "tm_sid (timers reconnect_pending ! 0) = ''a''"
  by code_simp+

theorem reconnect_after_logout_witness:
  "jsmap_get (sessions (logout_then_fire ''a'' 0 reconnect_pending)) ''a'' = Some 1
   \<and> map t_pc (tasks (logout_then_fire ''a'' 0 reconnect_pending)) = [Done (Inr 0), SemGranted]
   \<and> isRunning ''a'' (factory_resolve 1 (resume 1 (logout_then_fire ''a'' 0 reconnect_pending)))"
proof -
  have v: "next_ref reconnect_pending = 1" "length (tasks reconnect_pending) = 1"
    "active (sem reconnect_pending) < limit (sem reconnect_pending)"
    "map t_pc (tasks reconnect_pending) = [Done (Inr 0)]"
    by code_simp+
  from reconnect_after_logout [OF reconnect_pending_facts] v show ?thesis by simp
qed

text \<open>
  C6 as the specification states it fails: a session is started, its connection closes
  with a transient reason, the session is logged out while the reconnect timer is pending,
  and the timer fires. Afterwards the id is registered again and has a live connection.
\<close>

theorem reconnect_after_logout_counterexample:
  "map fst (sessions (run [CallStart ''a'', Resume 0, FactoryResolve 0, DelayDone 0,
      ConnUpdate 0 (Close (Num 428) Undefined), CallLogout ''a'', TimerFire 0, Resume 1,
      FactoryResolve 1, DelayDone 1] (new_manager None None None))) = [''a'']
   \<and> live_conns ''a'' (run [CallStart ''a'', Resume 0, FactoryResolve 0, DelayDone 0,
      ConnUpdate 0 (Close (Num 428) Undefined), CallLogout ''a'', TimerFire 0, Resume 1,
      FactoryResolve 1, DelayDone 1] (new_manager None None None)) = [1]
   \<and> map fst (sessions (run [CallStart ''a'', Resume 0, FactoryResolve 0, DelayDone 0,
      ConnUpdate 0 (Close (Num 428) Undefined), CallLogout ''a''] (new_manager None None None))) = []"
  by code_simp

section \<open>Session manager: the semaphore queue holds known calls only\<close>

lemma queue_ok_iff: "queue_ok m \<longleftrightarrow> (\<forall>w \<in> set (queue (sem m)). w < length (tasks m))"
  by (simp add: queue_ok_def list_all_iff)

lemma queue_ok_new: "queue_ok (new_manager a b c)"
  by (simp add: queue_ok_def new_manager_def new_semaphore_def)

lemma queue_ok_settle: "queue_ok (settle who res m) = queue_ok m"
  by (simp add: queue_ok_def settle_frame)

lemma queue_ok_register: "queue_ok (register sid m) = queue_ok m"
  by (simp add: queue_ok_def register_frame)

lemma queue_ok_start_call:
  assumes "queue_ok m"
  shows "queue_ok (start_call who sid m)"
proof -
  define mR where "mR = register sid m"
  have ok: "queue_ok mR" using assms by (simp add: mR_def queue_ok_register)
  show ?thesis
  proof (cases "jsmap_get (sessions mR) sid")
    case None
    then have "start_call who sid m = settle who (Inl FailedToRegister)
                  (mR\<lparr>tasks := tasks mR @ [\<lparr>t_sid = sid, t_entry = 0,
                        t_pc = Done (Inl FailedToRegister), t_caller = who\<rparr>]\<rparr>)"
      by (simp add: start_call_def mR_def Let_def)
    moreover have "queue_ok (mR\<lparr>tasks := tasks mR @ [\<lparr>t_sid = sid, t_entry = 0,
                        t_pc = Done (Inl FailedToRegister), t_caller = who\<rparr>]\<rparr>)"
      using ok by (auto simp: queue_ok_iff)
    ultimately show ?thesis by (simp add: queue_ok_settle)
  next
    case (Some r)
    show ?thesis
    proof (cases "sock (heap mR r)")
      case (Some c)
      with \<open>jsmap_get (sessions mR) sid = Some r\<close>
      have "start_call who sid mR = mR\<lparr>tasks := tasks mR @ [\<lparr>t_sid = sid, t_entry = r,
                t_pc = Done (Inr c), t_caller = who\<rparr>]\<rparr>"
        by (rule start_call_running)
      moreover have "queue_ok (mR\<lparr>tasks := tasks mR @ [\<lparr>t_sid = sid, t_entry = r,
                t_pc = Done (Inr c), t_caller = who\<rparr>]\<rparr>)"
        using ok by (auto simp: queue_ok_iff)
      ultimately show ?thesis by (simp add: mR_def start_call_register)
    next
      case None
      with \<open>jsmap_get (sessions mR) sid = Some r\<close>
      have "start_call who sid mR = mR\<lparr>sem := snd (acquire_call (length (tasks mR)) (sem mR)),
         tasks := tasks mR @ [\<lparr>t_sid = sid, t_entry = r,
            t_pc = (if fst (acquire_call (length (tasks mR)) (sem mR)) then SemGranted else SemWait),
            t_caller = who\<rparr>]\<rparr>"
        by (rule start_call_waiting)
      moreover have "queue_ok (mR\<lparr>sem := snd (acquire_call (length (tasks mR)) (sem mR)),
         tasks := tasks mR @ [\<lparr>t_sid = sid, t_entry = r,
            t_pc = (if fst (acquire_call (length (tasks mR)) (sem mR)) then SemGranted else SemWait),
            t_caller = who\<rparr>]\<rparr>)"
        using ok by (auto simp: queue_ok_iff acquire_call_def)
      ultimately show ?thesis by (simp add: mR_def start_call_register)
    qed
  qed
qed

lemma length_wake: "length (wake w ts) = length ts"
  by (cases w) (simp_all add: wake_def)

lemma queue_release: "set (queue (snd (release s))) \<subseteq> set (queue s)"
  by (auto simp: release_def Let_def split: list.splits)

lemma queue_ok_resume: "queue_ok m \<Longrightarrow> queue_ok (resume t m)"
  by (auto simp: queue_ok_iff resume_def Let_def acquire_resume_def split: pc.splits)

lemma queue_ok_factory_resolve: "queue_ok m \<Longrightarrow> queue_ok (factory_resolve t m)"
  by (auto simp: queue_ok_iff factory_resolve_def Let_def)

lemma queue_ok_factory_reject: "queue_ok m \<Longrightarrow> queue_ok (factory_reject t m)"
  by (auto simp: queue_ok_iff factory_reject_def)

lemma queue_ok_delay_done:
  assumes "queue_ok m"
  shows "queue_ok (delay_done t m)"
proof (cases "t < length (tasks m)")
  case False
  with assms show ?thesis by (simp add: delay_done_def)
next
  case True
  show ?thesis
  proof (cases "t_pc (tasks m ! t)")
    case (AwaitDelay res)
    obtain w s' where rel: "release (sem m) = (w, s')" by (cases "release (sem m)")
    let ?m1 = "m\<lparr>sem := s', tasks := wake w ((tasks m)[t := (tasks m ! t)\<lparr>t_pc := Done res\<rparr>])\<rparr>"
    have d: "delay_done t m = settle (t_caller (tasks m ! t)) res ?m1"
      using True AwaitDelay rel by (simp add: delay_done_def Let_def)
    have "set (queue s') \<subseteq> set (queue (sem m))"
      using queue_release [of "sem m"] rel by simp
    then have "queue_ok ?m1" using assms by (auto simp: queue_ok_iff length_wake)
    then show ?thesis by (simp add: d queue_ok_settle)
  qed (use assms True in \<open>simp_all add: delay_done_def Let_def\<close>)
qed

lemma handleConnectionUpdate_frame:
  "tasks (handleConnectionUpdate sid upd m) = tasks m"
  "sem (handleConnectionUpdate sid upd m) = sem m"
  by (simp_all add: handleConnectionUpdate_def split: option.splits conn_update.splits)

lemma queue_ok_conn_event: "queue_ok m \<Longrightarrow> queue_ok (conn_event c upd m)"
  by (cases upd) (simp_all add: queue_ok_def conn_event_def handleConnectionUpdate_frame)

lemma queue_ok_fire_timer:
  assumes "queue_ok m"
  shows "queue_ok (fire_timer k m)"
proof (cases "k < length (timers m) \<and> \<not> tm_fired (timers m ! k)")
  case False
  with assms show ?thesis by (auto simp: fire_timer_def)
next
  case True
  let ?e = "tm_entry (timers m ! k)"
  let ?g = "m\<lparr>timers := (timers m)[k := (timers m ! k)\<lparr>tm_fired := True\<rparr>],
              heap := (heap m)(?e := (heap m ?e)\<lparr>restarting := False,
                        backoffMs := min (backoff_or_default m (heap m ?e) * 2) (maxBackoff m)\<rparr>)\<rparr>"
  have "queue_ok ?g" using assms by (simp add: queue_ok_def)
  then have "queue_ok (start_call (FromTimer ?e) (tm_sid (timers m ! k)) ?g)"
    by (rule queue_ok_start_call)
  then show ?thesis using True by (simp add: fire_timer_def Let_def)
qed

lemma queue_ok_foldl_start:
  "queue_ok m \<Longrightarrow> queue_ok (foldl (\<lambda>s sid. start_call who sid s) m ids)"
  by (induction ids arbitrary: m) (simp_all add: queue_ok_start_call)

lemma queue_ok_stop: "queue_ok m \<Longrightarrow> queue_ok (snd (stop sid m))"
  by (auto simp: queue_ok_def stop_def split: option.splits)

lemma queue_ok_logout: "queue_ok m \<Longrightarrow> queue_ok (snd (logout sid m))"
  by (auto simp: queue_ok_def logout_def split: option.splits)

lemma queue_ok_step: "queue_ok m \<Longrightarrow> queue_ok (step e m)"
proof (cases e)
  case CallStartAll
  assume "queue_ok m"
  then show ?thesis using CallStartAll
    by (simp add: startAll_def Let_def queue_ok_foldl_start)
qed (simp_all add: queue_ok_register queue_ok_start_call queue_ok_stop queue_ok_logout
      queue_ok_resume queue_ok_factory_resolve queue_ok_factory_reject queue_ok_delay_done
      queue_ok_conn_event queue_ok_fire_timer)

lemma queue_ok_run: "queue_ok m \<Longrightarrow> queue_ok (run evs m)"
  unfolding run_def by (induction evs arbitrary: m) (simp_all add: queue_ok_step)

section \<open>Keyed store: the data invariant is kept\<close>

lemma db_ok_new: "cap_ok mu \<Longrightarrow> cap_ok mk \<Longrightarrow> db_ok (new_db mu mk direct)"
  by (simp add: db_ok_def new_db_def)

lemma applyMaxKeys_ok:
  assumes "cap_ok (maxKeysPerUser d)" and "distinct (map fst m0)"
    and "applyMaxKeysToUser d m0 = Some m'"
  shows "distinct (map fst m') \<and> within_cap (maxKeysPerUser d) m'"
proof (cases "cap_set (maxKeysPerUser d)")
  case False
  with assms show ?thesis by (simp add: applyMaxKeysToUser_def within_cap_def)
next
  case True
  then obtain c where c: "maxKeysPerUser d = Some c" "0 < c"
    using assms(1) by (cases "maxKeysPerUser d") auto
  have "applyMaxKeysToUser d m0 = Some (drop (length m0 - nat c) m0)"
    using True c assms(2) by (simp add: applyMaxKeysToUser_def evict_while_distinct)
  with assms(3) have m': "m' = drop (length m0 - nat c) m0" by simp
  have "distinct (map fst m')" using assms(2) by (simp add: m' drop_map [symmetric] distinct_drop)
  moreover have "int (length m') \<le> c" using c(2) by (simp add: m')
  ultimately show ?thesis using c by (simp add: within_cap_def)
qed

lemma usermap_ok_fields:
  "maxKeysPerUser d' = maxKeysPerUser d \<Longrightarrow> usermap_ok d' = usermap_ok d"
  by (rule ext) (simp add: usermap_ok_def)

lemma db_okI:
  assumes "cap_ok (maxUsers d')" and "cap_ok (maxKeysPerUser d')"
    and "distinct (map fst (store d'))"
    and "\<And>p. p \<in> set (store d') \<Longrightarrow> usermap_ok d' (snd p)"
  shows "db_ok d'"
  using assms by (auto simp: db_ok_def list_all_iff)

lemma db_ok_maps: "db_ok d \<Longrightarrow> p \<in> set (store d) \<Longrightarrow> usermap_ok d (snd p)"
  by (auto simp: db_ok_def list_all_iff)

lemma db_ok_set:
  assumes ok: "db_ok d" and r: "db_set u key val d = Some d'"
  shows "db_ok d'"
proof -
  let ?u = "coerce_owner u"
  from ok have cu: "cap_ok (maxUsers d)" and ck: "cap_ok (maxKeysPerUser d)"
    and dist: "distinct (map fst (store d))" by (simp_all add: db_ok_def)
  from r obtain m d1 m' where e: "ensureUserMap ?u d = Some (m, d1)"
    and a: "applyMaxKeysToUser d1 (jsmap_set key val m) = Some m'"
    and d': "d' = d1\<lparr>store := jsmap_mutate ?u (\<lambda>_. m') (store d1)\<rparr>"
    by (auto simp: db_set_def Let_def split: option.splits)
  have d1: "maxUsers d1 = maxUsers d \<and> maxKeysPerUser d1 = maxKeysPerUser d
            \<and> distinct (map fst (store d1)) \<and> distinct (map fst m)
            \<and> (\<forall>p \<in> set (store d1). p \<in> set (store d) \<or> p = (?u, m))"
  proof (cases "jsmap_get (store d) ?u")
    case None
    from ensureUserMap_absent [OF None cu dist] e
    have m: "m = []" and d1e: "d1 = (if cap_set (maxUsers d)
               then d\<lparr>store := drop (Suc (length (store d)) - nat (the (maxUsers d)))
                                   (store d @ [(?u, [])])\<rparr>
               else d\<lparr>store := store d @ [(?u, [])]\<rparr>)" by simp_all
    from None have notin: "?u \<notin> fst ` set (store d)" by (simp add: jsmap_get_None)
    then have dd: "distinct (map fst (store d @ [(?u, [])]))" using dist by simp
    have sd1: "store d1 = drop (if cap_set (maxUsers d)
                  then Suc (length (store d)) - nat (the (maxUsers d)) else 0) (store d @ [(?u, [])])"
      by (simp add: d1e)
    have "distinct (map fst (store d1))"
      unfolding sd1 using dd by (simp only: drop_map [symmetric] distinct_drop)
    moreover have "\<forall>p \<in> set (store d1). p \<in> set (store d) \<or> p = (?u, m)"
    proof
      fix p assume "p \<in> set (store d1)"
      then have "p \<in> set (store d @ [(?u, [])])"
        unfolding sd1 by (rule in_set_dropD)
      then show "p \<in> set (store d) \<or> p = (?u, m)" by (auto simp: m)
    qed
    ultimately show ?thesis by (simp add: d1e m)
  next
    case (Some m0)
    from ensureUserMap_present [OF Some] e
    have m: "m = m0" and d1e: "d1 = (if cap_set (maxUsers d) then touch ?u m0 d else d)" by simp_all
    have dm: "distinct (map fst m)" using usermap_ok_lookup [OF ok Some] by (simp add: m usermap_ok_def)
    have mem: "(?u, m) \<in> set (store d)" using Some by (simp add: m jsmap_get_def map_of_SomeD)
    show ?thesis
    proof (cases "cap_set (maxUsers d)")
      case True
      then have s1: "store d1 = jsmap_delete ?u (store d) @ [(?u, m0)]" by (simp add: d1e store_touch)
      from distinct_move_last [OF dist Some] s1 mem dm show ?thesis
        by (simp add: d1e True touch_def m)
    next
      case False
      then show ?thesis using dist dm by (simp add: d1e)
    qed
  qed
  then have f: "maxUsers d1 = maxUsers d" "maxKeysPerUser d1 = maxKeysPerUser d"
    and dist1: "distinct (map fst (store d1))" and dm: "distinct (map fst m)"
    and old: "\<And>p. p \<in> set (store d1) \<Longrightarrow> p \<in> set (store d) \<or> p = (?u, m)" by auto
  have dm0: "distinct (map fst (jsmap_set key val m))" using dm by (rule distinct_jsmap_set)
  have um: "usermap_ok d m'"
    using applyMaxKeys_ok [OF _ dm0 a] ck f by (simp add: usermap_ok_def)
  show ?thesis
  proof (rule db_okI)
    show "cap_ok (maxUsers d')" using cu f by (simp add: d')
    show "cap_ok (maxKeysPerUser d')" using ck f by (simp add: d')
    show "distinct (map fst (store d'))" using dist1 by (simp add: d' keys_jsmap_mutate)
    fix p assume "p \<in> set (store d')"
    then have "p \<in> (\<lambda>q. if fst q = ?u then (fst q, m') else q) ` set (store d1)"
      by (simp add: d' jsmap_mutate_def)
    then obtain q where q: "q \<in> set (store d1)" "p = (if fst q = ?u then (fst q, m') else q)"
      by blast
    have uo: "usermap_ok d' = usermap_ok d" by (rule usermap_ok_fields) (simp add: d' f)
    show "usermap_ok d' (snd p)"
    proof (cases "fst q = ?u")
      case True
      with q um uo show ?thesis by simp
    next
      case False
      with old [OF q(1)] have "q \<in> set (store d)" by auto
      with db_ok_maps [OF ok] q False uo show ?thesis by simp
    qed
  qed
qed

lemma no_numeric_owner_set:
  assumes ok: "db_ok d" and nn: "no_numeric_owner d" and r: "db_set u key val d = Some d'"
  shows "no_numeric_owner d'"
proof -
  from db_set_result [OF ok, of u key val] r
  have sub: "fst ` set (store d') \<subseteq> insert (coerce_owner u) (fst ` set (store d))" by auto
  have cu: "\<not> is_Num (coerce_owner u)" by (cases u) simp_all
  have old: "\<not> is_Num x" if "x \<in> set (map fst (store d))" for x
    using nn that unfolding no_numeric_owner_def list_all_iff by blast
  have new: "\<not> is_Num x" if "x \<in> set (map fst (store d'))" for x
  proof -
    from that have "x \<in> fst ` set (store d')" by simp
    with sub have "x = coerce_owner u \<or> x \<in> fst ` set (store d)" by blast
    then show ?thesis
    proof
      assume "x = coerce_owner u"
      with cu show ?thesis by simp
    next
      assume "x \<in> fst ` set (store d)"
      then have "x \<in> set (map fst (store d))" by simp
      then show ?thesis by (rule old)
    qed
  qed
  show ?thesis unfolding no_numeric_owner_def list_all_iff using new by blast
qed

end
